theory Spec2Isabelle
  imports Complex_Main "HOL-Library.Multiset"
begin

section \<open>The Las Vegas dice game: data model\<close>

text \<open>
  A shallow embedding of \<^verbatim>\<open>src/lasvegas/game.py\<close> (class \<^verbatim>\<open>LasVegas\<close>).
  Python integers are \<open>int\<close>; list positions are \<open>nat\<close>. The two dictionaries
  \<^verbatim>\<open>{"cash": .., "dice": ..}\<close> and \<^verbatim>\<open>{"bills": .., "dice": ..}\<close> are records; both have a
  field called \<open>dice\<close>, written \<open>player.dice\<close> and \<open>casino.dice\<close> below. The attribute
  \<^verbatim>\<open>round\<close> is the field \<open>round_no\<close>, because \<open>round\<close> is a constant of the library.

  An exception is a value of \<open>error\<close>. A method that mutates the object returns the
  exception it raised, if any, together with the object's state afterwards; the
  constructor returns either the exception or the new object.

  The module's random source is explicit: \<^verbatim>\<open>shuffle\<close> is a parameter of the functions
  that call it, any function that permutes its argument (\<open>is_shuffle\<close>).
\<close>

datatype error = AssertionError string | IndexError

record player =
  cash :: int
  dice :: int

record casino =
  bills :: "int list"
  dice :: "int list"

record game =
  num_players :: int
  players :: "player list"
  deck :: "int list"
  casinos :: "casino list"
  first_player :: int
  round_no :: int

type_synonym shuffler = "int list \<Rightarrow> int list"

definition is_shuffle :: "shuffler \<Rightarrow> bool" where
  "is_shuffle shuffle \<longleftrightarrow> (\<forall>xs. mset (shuffle xs) = mset xs)"

definition MAX_PLAYERS :: int where "MAX_PLAYERS = 5"
definition NUM_DICE :: int where "NUM_DICE = 8"
definition NUM_ROUNDS :: int where "NUM_ROUNDS = 4"
definition CASH_NORM :: int where "CASH_NORM = 100"

definition BILL_COUNTS :: "(int \<times> nat) list" where
  "BILL_COUNTS = [(10, 6), (20, 8), (30, 8), (40, 6), (50, 6), (60, 5), (70, 5), (80, 5), (90, 5)]"

text \<open>\<^verbatim>\<open>[bill for bill, count in BILL_COUNTS.items() for _ in range(count)]\<close>\<close>

definition full_deck :: "int list" where
  "full_deck = concat (map (\<lambda>(bill, n). replicate n bill) BILL_COUNTS)"

text \<open>\<^verbatim>\<open>max(self.BILL_COUNTS.keys())\<close>\<close>

definition MAX_BILL :: int where
  "MAX_BILL = Max (set (map fst BILL_COUNTS))"

section \<open>Dealing\<close>

text \<open>
  \<^verbatim>\<open>while sum(bills[i]) < 50: bills[i].append(self.deck.pop())\<close>.
  \<^verbatim>\<open>pop()\<close> takes the last element of the deck and raises \<^verbatim>\<open>IndexError\<close> on an empty one.
\<close>

function draw :: "int list \<Rightarrow> int list \<Rightarrow> error + (int list \<times> int list)" where
  "draw bs dk =
     (if sum_list bs < 50 then
        (if dk = [] then Inl IndexError else draw (bs @ [last dk]) (butlast dk))
      else Inr (bs, dk))"
  by pat_completeness auto
termination
  by (relation "measure (\<lambda>(bs, dk). length dk)") auto

declare draw.simps [simp del]

text \<open>\<^verbatim>\<open>while len(bills[i]) < 5: bills[i].append(0)\<close>\<close>

function pad :: "int list \<Rightarrow> int list" where
  "pad bs = (if length bs < 5 then pad (bs @ [0]) else bs)"
  by pat_completeness auto
termination
  by (relation "measure (\<lambda>bs. 5 - length bs)") auto

declare pad.simps [simp del]

text \<open>
  The loop \<^verbatim>\<open>for i in range(6)\<close> of \<^verbatim>\<open>deal_bills\<close>, the deck threaded through it:
  draw, pad, \<^verbatim>\<open>sort(reverse=True)\<close>. The first list dealt is casino 0.
\<close>

fun deal_loop :: "nat \<Rightarrow> int list \<Rightarrow> error + (int list list \<times> int list)" where
  "deal_loop 0 dk = Inr ([], dk)"
| "deal_loop (Suc n) dk =
     (case draw [] dk of
        Inl e \<Rightarrow> Inl e
      | Inr (bs, dk') \<Rightarrow>
          (case deal_loop n dk' of
             Inl e \<Rightarrow> Inl e
           | Inr (rest, dk'') \<Rightarrow> Inr (rev (sort (pad bs)) # rest, dk'')))"

text \<open>
  \<^verbatim>\<open>deal_bills\<close> takes the deck and returns the six casinos and what is left of the
  deck, or the \<^verbatim>\<open>IndexError\<close> of a \<^verbatim>\<open>pop\<close> from the emptied deck.
\<close>

definition deal_bills :: "int list \<Rightarrow> error + (casino list \<times> int list)" where
  "deal_bills dk =
     (case deal_loop 6 dk of
        Inl e \<Rightarrow> Inl e
      | Inr (bss, dk') \<Rightarrow>
          Inr (map (\<lambda>bs. \<lparr>bills = bs, dice = replicate (nat MAX_PLAYERS) 0\<rparr>) bss, dk'))"

section \<open>Construction\<close>

definition LasVegas_init :: "shuffler \<Rightarrow> int \<Rightarrow> error + game" where
  "LasVegas_init shuffle n =
     (if \<not> (2 \<le> n \<and> n \<le> MAX_PLAYERS) then Inl (AssertionError ''Invalid number of players'')
      else
        (let ps = map (\<lambda>i. if int i < n then \<lparr>cash = 0, dice = NUM_DICE\<rparr>
                            else \<lparr>cash = 0, dice = 0\<rparr>) [0..<nat MAX_PLAYERS]
         in case deal_bills (shuffle full_deck) of
              Inl e \<Rightarrow> Inl e
            | Inr (cs, dk) \<Rightarrow>
                Inr \<lparr>num_players = n, players = ps, deck = dk, casinos = cs,
                     first_player = 0, round_no = 1\<rparr>))"

section \<open>Rolling\<close>

text \<open>
  \<^verbatim>\<open>roll_dice(player)\<close>. The outcomes of \<^verbatim>\<open>randint(1, 6)\<close> are a parameter, the \<open>k\<close>-th
  die showing \<open>randint k\<close>; \<open>is_randint\<close> says that every outcome is a face.
  \<^verbatim>\<open>range(n)\<close> is empty for a negative \<open>n\<close>.
\<close>

definition is_randint :: "(nat \<Rightarrow> int) \<Rightarrow> bool" where
  "is_randint randint \<longleftrightarrow> (\<forall>k. 1 \<le> randint k \<and> randint k \<le> 6)"

definition roll_dice :: "(nat \<Rightarrow> int) \<Rightarrow> game \<Rightarrow> int \<Rightarrow> int list" where
  "roll_dice randint g player =
     (let roll = map randint [0..<nat (player.dice (players g ! nat player))]
      in map (\<lambda>i. int (count_list roll (int i + 1))) [0..<6])"

section \<open>Moves\<close>

text \<open>
  \<^verbatim>\<open>play_move(player, action, roll_counts)\<close>. The three assertions come first, in the
  source's order; \<^verbatim>\<open>roll_counts[action]\<close> raises \<^verbatim>\<open>IndexError\<close> when the list is too short
  (\<open>action\<close> is not negative there).
\<close>

definition play_move :: "game \<Rightarrow> int \<Rightarrow> int \<Rightarrow> int list \<Rightarrow> error option \<times> game" where
  "play_move g player action roll_counts =
     (if \<not> (0 \<le> player \<and> player < num_players g) then (Some (AssertionError ''Invalid player''), g)
      else if \<not> (0 \<le> action \<and> action < 6) then (Some (AssertionError ''Invalid casino''), g)
      else if \<not> nat action < length roll_counts then (Some IndexError, g)
      else if \<not> roll_counts ! nat action > 0 then (Some (AssertionError ''No dice to play''), g)
      else
        (let p = nat player; a = nat action; n = roll_counts ! a;
             pl = players g ! p; c = casinos g ! a
         in (None,
             g\<lparr>players := (players g)[p := pl\<lparr>player.dice := player.dice pl - n\<rparr>],
               casinos := (casinos g)[a := c\<lparr>casino.dice := (casino.dice c)[p := casino.dice c ! p + n]\<rparr>]\<rparr>)))"

definition is_end_round :: "game \<Rightarrow> bool" where
  "is_end_round g = list_all (\<lambda>i. player.dice (players g ! i) = 0) [0..<nat (num_players g)]"

definition is_end_game :: "game \<Rightarrow> bool" where
  "is_end_game g \<longleftrightarrow> round_no g = NUM_ROUNDS \<and> is_end_round g"

section \<open>Round end\<close>

text \<open>\<^verbatim>\<open>Counter(casino["dice"])\<close>: \<^verbatim>\<open>counts[count]\<close> is the number of slots holding that count.\<close>

definition Counter :: "int list \<Rightarrow> int \<Rightarrow> nat" where
  "Counter ds k = count_list ds k"

text \<open>
  \<^verbatim>\<open>sorted(enumerate(casino["dice"]), key=lambda x: x[1])\<close>: a stable sort, ascending in
  the count, as \<open>sort_key\<close> is.
\<close>

definition ranked_of :: "int list \<Rightarrow> (nat \<times> int) list" where
  "ranked_of ds = sort_key snd (enumerate 0 ds)"

text \<open>
  The \<^verbatim>\<open>while len(ranked) > 0\<close> loop. \<^verbatim>\<open>ranked.pop()\<close> takes the last pair, so the loop
  walks the reversed list, which is the argument here; \<^verbatim>\<open>casino["bills"].pop(0)\<close> takes the
  first bill.
\<close>

fun pay_loop :: "(nat \<times> int) list \<Rightarrow> (int \<Rightarrow> nat) \<Rightarrow> player list \<Rightarrow> int list \<Rightarrow> player list \<times> int list" where
  "pay_loop [] counts ps bs = (ps, bs)"
| "pay_loop ((p, k) # rest) counts ps bs =
     (if counts k = 1 \<and> bs \<noteq> [] then
        pay_loop rest counts (ps[p := (ps ! p)\<lparr>cash := cash (ps ! p) + hd bs\<rparr>]) (tl bs)
      else pay_loop rest counts ps bs)"

text \<open>
  The body of \<^verbatim>\<open>for casino in self.casinos\<close>: the payouts, then
  \<^verbatim>\<open>for bill in casino["bills"]: if bill: self.deck.append(bill)\<close>. The casino keeps the
  list of the bills that were not paid.
\<close>

definition resolve_casino :: "casino \<Rightarrow> player list \<Rightarrow> int list \<Rightarrow> casino \<times> player list \<times> int list" where
  "resolve_casino c ps dk =
     (let counts = Counter (casino.dice c);
          ranked = ranked_of (casino.dice c);
          (ps', bs') = pay_loop (rev ranked) counts ps (bills c);
          dk' = fold (\<lambda>bill d. if bill \<noteq> 0 then d @ [bill] else d) bs' dk
      in (c\<lparr>bills := bs'\<rparr>, ps', dk'))"

fun resolve_casinos :: "casino list \<Rightarrow> player list \<Rightarrow> int list \<Rightarrow> casino list \<times> player list \<times> int list" where
  "resolve_casinos [] ps dk = ([], ps, dk)"
| "resolve_casinos (c # rest) ps dk =
     (case resolve_casino c ps dk of
        (c', ps', dk') \<Rightarrow>
          (case resolve_casinos rest ps' dk' of
             (rest', ps'', dk'') \<Rightarrow> (c' # rest', ps'', dk'')))"

text \<open>\<^verbatim>\<open>for i in range(self.num_players): self.players[i]["dice"] = self.NUM_DICE\<close>\<close>

definition reset_dice :: "int \<Rightarrow> player list \<Rightarrow> player list" where
  "reset_dice n ps = fold (\<lambda>i qs. qs[i := (qs ! i)\<lparr>player.dice := NUM_DICE\<rparr>]) [0..<nat n] ps"

text \<open>
  \<^verbatim>\<open>advance_round\<close>. When \<^verbatim>\<open>deal_bills\<close> raises, the payouts and the recycling have
  happened, the deck has been emptied by the \<^verbatim>\<open>pop\<close>s and \<^verbatim>\<open>self.casinos\<close> has not been
  assigned.
\<close>

definition advance_round :: "shuffler \<Rightarrow> game \<Rightarrow> error option \<times> game" where
  "advance_round shuffle g =
     (if \<not> is_end_round g then (Some (AssertionError ''Round is not over''), g)
      else
        (case resolve_casinos (casinos g) (players g) (deck g) of
           (cs, ps, dk) \<Rightarrow>
             (if round_no g < NUM_ROUNDS then
                (case deal_bills (shuffle dk) of
                   Inl e \<Rightarrow> (Some e, g\<lparr>players := ps, deck := [], casinos := cs\<rparr>)
                 | Inr (cs', dk') \<Rightarrow>
                     (None,
                      g\<lparr>players := reset_dice (num_players g) ps, deck := dk', casinos := cs',
                        first_player := (first_player g + 1) mod num_players g,
                        round_no := round_no g + 1\<rparr>))
              else (None, g\<lparr>players := ps, deck := dk, casinos := cs\<rparr>))))"

text \<open>
  For stating what the payout loop does: \<open>winners ds\<close> are the pairs of the ranking, in
  the order the loop meets them, whose count occurs once in \<open>ds\<close>; \<open>credit\<close> adds a bill
  to the cash of a pair's slot.
\<close>

definition winners :: "int list \<Rightarrow> (nat \<times> int) list" where
  "winners ds = filter (\<lambda>(p, k). count_list ds k = 1) (rev (ranked_of ds))"

definition credit :: "(nat \<times> int) \<times> int \<Rightarrow> player list \<Rightarrow> player list" where
  "credit w ps = (case w of ((p, k), b) \<Rightarrow> ps[p := (ps ! p)\<lparr>cash := cash (ps ! p) + b\<rparr>])"

section \<open>The state vector\<close>

text \<open>
  Python's slices \<^verbatim>\<open>xs[i:]\<close> and \<^verbatim>\<open>xs[:i]\<close>; a negative \<open>i\<close> counts from the end.
\<close>

definition slice_pos :: "'a list \<Rightarrow> int \<Rightarrow> nat" where
  "slice_pos xs i = (if i < 0 then nat (max 0 (int (length xs) + i)) else nat i)"

definition slice_from :: "'a list \<Rightarrow> int \<Rightarrow> 'a list" where
  "slice_from xs i = drop (slice_pos xs i) xs"

definition slice_to :: "'a list \<Rightarrow> int \<Rightarrow> 'a list" where
  "slice_to xs i = take (slice_pos xs i) xs"

text \<open>
  \<^verbatim>\<open>get_game_state(player, roll_counts)\<close>. Python's \<^verbatim>\<open>/\<close> on integers gives a float; the
  quotient is the real number here, so the vector holds the exact values that the floats
  round. No divisor is zero in a constructed game (\<open>num_players\<close> is at least 2).
\<close>

definition casino_vec :: "int \<Rightarrow> casino \<Rightarrow> real list" where
  "casino_vec player c =
     (let ds = casino.dice c;
          dice_shifted = slice_from ds player @ slice_to ds player;
          bs = bills c;
          bills_shifted = slice_from bs player @ slice_to bs player
      in map (\<lambda>d. real_of_int d / real_of_int NUM_DICE) dice_shifted
         @ map (\<lambda>b. real_of_int b / real_of_int MAX_BILL) bills_shifted)"

definition get_game_state :: "game \<Rightarrow> int \<Rightarrow> int list \<Rightarrow> real list" where
  "get_game_state g player roll_counts =
     (let order = (if player \<ge> first_player g then player - first_player g
                   else num_players g - first_player g + player);
          cs = map cash (players g);
          cash_shifted = slice_from cs player @ slice_to cs player
      in [real_of_int (num_players g) / real_of_int MAX_PLAYERS,
          real_of_int (round_no g) / real_of_int NUM_ROUNDS,
          real_of_int order / real_of_int (num_players g)]
         @ map (\<lambda>c. real_of_int c / real_of_int CASH_NORM) cash_shifted
         @ concat (map (casino_vec player) (casinos g))
         @ map (\<lambda>r. real_of_int r / real_of_int NUM_DICE) roll_counts)"


section \<open>Games in play\<close>

text \<open>
  The shape that the constructor gives an object and every method keeps: five player
  slots, six casinos, five dice counts in each casino, two to five players.
\<close>

definition wf_game :: "game \<Rightarrow> bool" where
  "wf_game g \<longleftrightarrow>
     2 \<le> num_players g \<and> num_players g \<le> MAX_PLAYERS \<and>
     length (players g) = nat MAX_PLAYERS \<and> length (casinos g) = 6 \<and>
     list_all (\<lambda>c. length (casino.dice c) = nat MAX_PLAYERS) (casinos g)"

text \<open>
  The invariant of the games in play. \<open>placed g i\<close> is the number of dice that slot \<open>i\<close>
  has on the casinos. In a sound game the round, the first player, the players' cash and
  dice, the dice on the casinos, the bills and the deck are in their ranges, and the dice
  a slot holds and has placed add up to \<open>NUM_DICE\<close> for an active slot and to 0 for an
  inactive one.
\<close>

definition placed :: "game \<Rightarrow> nat \<Rightarrow> int" where
  "placed g i = sum_list (map (\<lambda>c. casino.dice c ! i) (casinos g))"

definition sound :: "game \<Rightarrow> bool" where
  "sound g \<longleftrightarrow>
     wf_game g \<and> 1 \<le> round_no g \<and> round_no g \<le> NUM_ROUNDS \<and>
     0 \<le> first_player g \<and> first_player g < num_players g \<and>
     (\<forall>p\<in>set (players g). 0 \<le> cash p \<and> 0 \<le> player.dice p) \<and>
     (\<forall>c\<in>set (casinos g). (\<forall>d\<in>set (casino.dice c). 0 \<le> d) \<and>
        (\<forall>b\<in>set (bills c). b = 0 \<or> 10 \<le> b \<and> b \<le> 90)) \<and>
     (\<forall>b\<in>set (deck g). 10 \<le> b \<and> b \<le> 90) \<and>
     (\<forall>i<length (players g).
        player.dice (players g ! i) + placed g i = (if int i < num_players g then NUM_DICE else 0))"

text \<open>
  The bills that the payouts of \<^verbatim>\<open>advance_round\<close> take off the casinos of \<open>g\<close>: each
  \<^verbatim>\<open>pop(0)\<close> removes the first bill, so they are the front part of each casino's list that
  is missing after the loop. An empty slot paid out is a \<open>0\<close> in this list.
\<close>

definition paid_bills :: "game \<Rightarrow> int list" where
  "paid_bills g =
     concat (map2 (\<lambda>c c'. take (length (bills c) - length (bills c')) (bills c))
               (casinos g) (fst (resolve_casinos (casinos g) (players g) (deck g))))"

text \<open>
  The states of a game: construction with two to five players, then any sequence of
  moves and round ends that raise no exception. A move plays a roll of the player's
  remaining dice (\<^verbatim>\<open>roll_dice\<close>) on a casino. The second component is the history of the
  bills paid out so far. \<open>in_play\<close> are the states up to the moment the final round is
  resolved; \<open>reachable\<close> also has the states after it.
\<close>

inductive reachable :: "game \<Rightarrow> int list \<Rightarrow> bool" where
  start: "is_shuffle shuffle \<Longrightarrow> LasVegas_init shuffle n = Inr g \<Longrightarrow> reachable g []"
| move: "reachable g h \<Longrightarrow> is_randint randint \<Longrightarrow>
         play_move g player action (roll_dice randint g player) = (None, g') \<Longrightarrow> reachable g' h"
| next_round: "reachable g h \<Longrightarrow> is_shuffle shuffle \<Longrightarrow>
         advance_round shuffle g = (None, g') \<Longrightarrow> reachable g' (h @ paid_bills g)"

inductive in_play :: "game \<Rightarrow> int list \<Rightarrow> bool" where
  start: "is_shuffle shuffle \<Longrightarrow> LasVegas_init shuffle n = Inr g \<Longrightarrow> in_play g []"
| move: "in_play g h \<Longrightarrow> is_randint randint \<Longrightarrow>
         play_move g player action (roll_dice randint g player) = (None, g') \<Longrightarrow> in_play g' h"
| next_round: "in_play g h \<Longrightarrow> round_no g < NUM_ROUNDS \<Longrightarrow> is_shuffle shuffle \<Longrightarrow>
         advance_round shuffle g = (None, g') \<Longrightarrow> in_play g' (h @ paid_bills g)"

text \<open>
  A run of operations from a state, for evaluating concrete games: it stops with \<open>None\<close>
  at the first exception.
\<close>

datatype op = Move "nat \<Rightarrow> int" int int | Advance shuffler

fun op_ok :: "op \<Rightarrow> bool" where
  "op_ok (Move randint player action) = is_randint randint"
| "op_ok (Advance shuffle) = is_shuffle shuffle"

fun step :: "game \<times> int list \<Rightarrow> op \<Rightarrow> (game \<times> int list) option" where
  "step (g, h) (Move randint player action) =
     (case play_move g player action (roll_dice randint g player) of
        (None, g') \<Rightarrow> Some (g', h)
      | (Some e, g') \<Rightarrow> None)"
| "step (g, h) (Advance shuffle) =
     (case advance_round shuffle g of
        (None, g') \<Rightarrow> Some (g', h @ paid_bills g)
      | (Some e, g') \<Rightarrow> None)"

fun run :: "game \<times> int list \<Rightarrow> op list \<Rightarrow> (game \<times> int list) option" where
  "run s [] = Some s"
| "run s (x # xs) = (case step s x of None \<Rightarrow> None | Some s' \<Rightarrow> run s' xs)"

text \<open>The number of bills in the deck, in the casinos and paid out; empty slots are not bills.\<close>

definition bills_in_casinos :: "game \<Rightarrow> int list" where
  "bills_in_casinos g = concat (map (\<lambda>c. filter (\<lambda>b. b \<noteq> 0) (bills c)) (casinos g))"

definition bill_total :: "game \<Rightarrow> int list \<Rightarrow> nat" where
  "bill_total g h =
     length (deck g) + length (bills_in_casinos g) + length (filter (\<lambda>b. b \<noteq> 0) h)"

section \<open>Example games\<close>

text \<open>The two-player game that the constructor builds when the shuffle leaves the deck as it is.\<close>

definition example_game :: game where
  "example_game =
     \<lparr>num_players = 2,
      players = [\<lparr>cash = 0, dice = 8\<rparr>, \<lparr>cash = 0, dice = 8\<rparr>, \<lparr>cash = 0, dice = 0\<rparr>,
                 \<lparr>cash = 0, dice = 0\<rparr>, \<lparr>cash = 0, dice = 0\<rparr>],
      deck = [10, 10, 10, 10, 10, 10, 20, 20, 20, 20, 20, 20, 20, 20, 30, 30,
              30, 30, 30, 30, 30, 30, 40, 40, 40, 40, 40, 40, 50, 50, 50, 50,
              50, 50, 60, 60, 60, 60, 60, 70, 70, 70, 70, 70, 80, 80, 80, 80],
      casinos = [\<lparr>bills = [90, 0, 0, 0, 0], dice = [0, 0, 0, 0, 0]\<rparr>,
                 \<lparr>bills = [90, 0, 0, 0, 0], dice = [0, 0, 0, 0, 0]\<rparr>,
                 \<lparr>bills = [90, 0, 0, 0, 0], dice = [0, 0, 0, 0, 0]\<rparr>,
                 \<lparr>bills = [90, 0, 0, 0, 0], dice = [0, 0, 0, 0, 0]\<rparr>,
                 \<lparr>bills = [90, 0, 0, 0, 0], dice = [0, 0, 0, 0, 0]\<rparr>,
                 \<lparr>bills = [80, 0, 0, 0, 0], dice = [0, 0, 0, 0, 0]\<rparr>],
      first_player = 0, round_no = 1\<rparr>"

text \<open>
  \<open>example_game\<close> after a first round in which player 0 put four dice on casino 0 and four
  on casino 1, and player 1 eight dice on casino 2.
\<close>

definition rich_game :: game where
  "rich_game =
     \<lparr>num_players = 2,
      players = [\<lparr>cash = 180, dice = 8\<rparr>, \<lparr>cash = 90, dice = 8\<rparr>, \<lparr>cash = 0, dice = 0\<rparr>,
                 \<lparr>cash = 0, dice = 0\<rparr>, \<lparr>cash = 0, dice = 0\<rparr>],
      deck = [10, 10, 10, 10, 10, 10, 20, 20, 20, 20, 20, 20, 20, 20, 30, 30, 30,
              30, 30, 30, 30, 30, 40, 40, 40, 40, 40, 40, 50, 50, 50, 50, 50, 50,
              60, 60, 60, 60, 60, 70, 70, 70, 70, 70, 80],
      casinos = [\<lparr>bills = [80, 0, 0, 0, 0], dice = [0, 0, 0, 0, 0]\<rparr>,
                 \<lparr>bills = [90, 0, 0, 0, 0], dice = [0, 0, 0, 0, 0]\<rparr>,
                 \<lparr>bills = [90, 0, 0, 0, 0], dice = [0, 0, 0, 0, 0]\<rparr>,
                 \<lparr>bills = [80, 0, 0, 0, 0], dice = [0, 0, 0, 0, 0]\<rparr>,
                 \<lparr>bills = [80, 0, 0, 0, 0], dice = [0, 0, 0, 0, 0]\<rparr>,
                 \<lparr>bills = [80, 0, 0, 0, 0], dice = [0, 0, 0, 0, 0]\<rparr>],
      first_player = 1, round_no = 2\<rparr>"

text \<open>
  \<open>example_game\<close> in its fourth round, after three rounds in which player 0 put eight
  dice on casino 0 and player 1 eight dice on casino 1, and after the same two moves in
  the fourth round: the round is over and not yet resolved.
\<close>

definition round4_game :: game where
  "round4_game =
     \<lparr>num_players = 2,
      players = [\<lparr>cash = 250, dice = 0\<rparr>, \<lparr>cash = 260, dice = 0\<rparr>, \<lparr>cash = 0, dice = 0\<rparr>,
                 \<lparr>cash = 0, dice = 0\<rparr>, \<lparr>cash = 0, dice = 0\<rparr>],
      deck = [10, 10, 10, 10, 10, 10, 20, 20, 20, 20, 20, 20, 20, 20, 30, 30, 30,
              30, 30, 30, 30, 30, 40, 40, 40, 40, 40, 40, 50, 50, 50, 50, 50, 50,
              60, 60, 60, 60, 60, 70, 70, 70],
      casinos = [\<lparr>bills = [80, 0, 0, 0, 0], dice = [8, 0, 0, 0, 0]\<rparr>,
                 \<lparr>bills = [80, 0, 0, 0, 0], dice = [0, 8, 0, 0, 0]\<rparr>,
                 \<lparr>bills = [90, 0, 0, 0, 0], dice = [0, 0, 0, 0, 0]\<rparr>,
                 \<lparr>bills = [90, 0, 0, 0, 0], dice = [0, 0, 0, 0, 0]\<rparr>,
                 \<lparr>bills = [70, 0, 0, 0, 0], dice = [0, 0, 0, 0, 0]\<rparr>,
                 \<lparr>bills = [70, 0, 0, 0, 0], dice = [0, 0, 0, 0, 0]\<rparr>],
      first_player = 1, round_no = 4\<rparr>"

text \<open>\<open>round4_game\<close> after \<^verbatim>\<open>advance_round\<close> has resolved the fourth round.\<close>

definition final_game :: game where
  "final_game =
     \<lparr>num_players = 2,
      players = [\<lparr>cash = 330, dice = 0\<rparr>, \<lparr>cash = 340, dice = 0\<rparr>, \<lparr>cash = 0, dice = 0\<rparr>,
                 \<lparr>cash = 0, dice = 0\<rparr>, \<lparr>cash = 0, dice = 0\<rparr>],
      deck = [10, 10, 10, 10, 10, 10, 20, 20, 20, 20, 20, 20, 20, 20, 30, 30, 30,
              30, 30, 30, 30, 30, 40, 40, 40, 40, 40, 40, 50, 50, 50, 50, 50, 50,
              60, 60, 60, 60, 60, 70, 70, 70, 90, 90, 70, 70],
      casinos = [\<lparr>bills = [0, 0, 0, 0], dice = [8, 0, 0, 0, 0]\<rparr>,
                 \<lparr>bills = [0, 0, 0, 0], dice = [0, 8, 0, 0, 0]\<rparr>,
                 \<lparr>bills = [90, 0, 0, 0, 0], dice = [0, 0, 0, 0, 0]\<rparr>,
                 \<lparr>bills = [90, 0, 0, 0, 0], dice = [0, 0, 0, 0, 0]\<rparr>,
                 \<lparr>bills = [70, 0, 0, 0, 0], dice = [0, 0, 0, 0, 0]\<rparr>,
                 \<lparr>bills = [70, 0, 0, 0, 0], dice = [0, 0, 0, 0, 0]\<rparr>],
      first_player = 1, round_no = 4\<rparr>"

definition two_player_round :: "op list" where
  "two_player_round = [Move (\<lambda>k. 1) 0 0, Move (\<lambda>k. 2) 1 1, Advance (\<lambda>xs. xs)]"


text \<open>
  The four-player game that the constructor builds when the shuffle reverses the deck, the
  eight moves in which players 0 to 3 put 4, 3, 2 and 1 dice on casino 0 and the rest of
  their dice on casino 1, and the game after these moves.
\<close>

definition four_player_game :: game where
  "four_player_game =
     \<lparr>num_players = 4,
      players = [\<lparr>cash = 0, dice = 8\<rparr>, \<lparr>cash = 0, dice = 8\<rparr>, \<lparr>cash = 0, dice = 8\<rparr>,
                 \<lparr>cash = 0, dice = 8\<rparr>, \<lparr>cash = 0, dice = 0\<rparr>],
      deck = [90, 90, 90, 90, 90, 80, 80, 80, 80, 80, 70, 70, 70, 70, 70, 60,
              60, 60, 60, 60, 50, 50, 50, 50, 50, 50, 40, 40, 40, 40, 40, 40,
              30, 30, 30, 30],
      casinos = [\<lparr>bills = [10, 10, 10, 10, 10], dice = [0, 0, 0, 0, 0]\<rparr>,
                 \<lparr>bills = [20, 20, 10, 0, 0], dice = [0, 0, 0, 0, 0]\<rparr>,
                 \<lparr>bills = [20, 20, 20, 0, 0], dice = [0, 0, 0, 0, 0]\<rparr>,
                 \<lparr>bills = [20, 20, 20, 0, 0], dice = [0, 0, 0, 0, 0]\<rparr>,
                 \<lparr>bills = [30, 30, 0, 0, 0], dice = [0, 0, 0, 0, 0]\<rparr>,
                 \<lparr>bills = [30, 30, 0, 0, 0], dice = [0, 0, 0, 0, 0]\<rparr>],
      first_player = 0, round_no = 1\<rparr>"

definition four_player_moves :: "op list" where
  "four_player_moves =
     [Move (\<lambda>k. if k < 4 then 1 else 2) 0 0, Move (\<lambda>k. 2) 0 1,
      Move (\<lambda>k. if k < 3 then 1 else 2) 1 0, Move (\<lambda>k. 2) 1 1,
      Move (\<lambda>k. if k < 2 then 1 else 2) 2 0, Move (\<lambda>k. 2) 2 1,
      Move (\<lambda>k. if k < 1 then 1 else 2) 3 0, Move (\<lambda>k. 2) 3 1]"

definition four_player_played :: game where
  "four_player_played =
     four_player_game
       \<lparr>players := [\<lparr>cash = 0, dice = 0\<rparr>, \<lparr>cash = 0, dice = 0\<rparr>, \<lparr>cash = 0, dice = 0\<rparr>,
                    \<lparr>cash = 0, dice = 0\<rparr>, \<lparr>cash = 0, dice = 0\<rparr>],
        casinos := [\<lparr>bills = [10, 10, 10, 10, 10], dice = [4, 3, 2, 1, 0]\<rparr>,
                    \<lparr>bills = [20, 20, 10, 0, 0], dice = [4, 5, 6, 7, 0]\<rparr>,
                    \<lparr>bills = [20, 20, 20, 0, 0], dice = [0, 0, 0, 0, 0]\<rparr>,
                    \<lparr>bills = [20, 20, 20, 0, 0], dice = [0, 0, 0, 0, 0]\<rparr>,
                    \<lparr>bills = [30, 30, 0, 0, 0], dice = [0, 0, 0, 0, 0]\<rparr>,
                    \<lparr>bills = [30, 30, 0, 0, 0], dice = [0, 0, 0, 0, 0]\<rparr>]\<rparr>"

text \<open>Five slots without cash, and two casinos with a tie at three dice.\<close>

definition no_cash :: "player list" where
  "no_cash = [\<lparr>cash = 0, dice = 0\<rparr>, \<lparr>cash = 0, dice = 0\<rparr>, \<lparr>cash = 0, dice = 0\<rparr>,
              \<lparr>cash = 0, dice = 0\<rparr>, \<lparr>cash = 0, dice = 0\<rparr>]"

definition tie_casino :: casino where
  "tie_casino = \<lparr>bills = [90, 50, 0, 0, 0], dice = [3, 3, 1, 0, 0]\<rparr>"

definition tie_casino2 :: casino where
  "tie_casino2 = \<lparr>bills = [80, 30, 20, 0, 0], dice = [1, 3, 5, 3, 5]\<rparr>"

section \<open>Facts about the example games\<close>

lemma example_game_init: "LasVegas_init (\<lambda>xs. xs) 2 = Inr example_game"
  by code_simp

lemma wf_example_game: "wf_game example_game"
  by (simp add: wf_game_def example_game_def MAX_PLAYERS_def)

lemma wf_round4_game: "wf_game round4_game"
  by (simp add: wf_game_def round4_game_def MAX_PLAYERS_def)

lemma round4_end_round: "is_end_round round4_game"
  by code_simp

section \<open>What the payout loop leaves alone\<close>

lemma recycle_fold:
  "fold (\<lambda>bill d. if bill \<noteq> 0 then d @ [bill] else d) bs dk = dk @ filter (\<lambda>b. b \<noteq> 0) bs"
  by (induction bs arbitrary: dk) auto

lemma map_update_same: "(map f xs)[i := f (xs ! i)] = map f xs"
  by (simp add: map_update [symmetric])

lemma pay_loop_dice:
  "map player.dice (fst (pay_loop xs cnt ps bs)) = map player.dice ps"
  by (induction xs cnt ps bs rule: pay_loop.induct) (auto simp: map_update map_update_same)

lemma pay_loop_length:
  "length (fst (pay_loop xs cnt ps bs)) = length ps"
  by (induction xs cnt ps bs rule: pay_loop.induct) auto

lemma pay_loop_bills:
  "\<exists>k. snd (pay_loop xs cnt ps bs) = drop k bs"
proof (induction xs cnt ps bs rule: pay_loop.induct)
  case (1 counts ps bs)
  show ?case by (auto intro: exI[of _ 0])
next
  case (2 p k rest counts ps bs)
  show ?case
  proof (cases "counts k = 1 \<and> bs \<noteq> []")
    case True
    with 2 obtain j where "snd (pay_loop rest counts (ps[p := (ps ! p)\<lparr>cash := cash (ps ! p) + hd bs\<rparr>]) (tl bs)) = drop j (tl bs)"
      by blast
    with True show ?thesis by (auto simp: drop_Suc intro!: exI[of _ "Suc j"])
  next
    case False
    with 2 show ?thesis by auto
  qed
qed

lemma resolve_casino_eq:
  "resolve_casino c ps dk =
     (let r = pay_loop (rev (ranked_of (casino.dice c))) (Counter (casino.dice c)) ps (bills c)
      in (c\<lparr>bills := snd r\<rparr>, fst r, dk @ filter (\<lambda>b. b \<noteq> 0) (snd r)))"
  by (simp add: resolve_casino_def recycle_fold Let_def split: prod.splits)

lemma resolve_casinos_frame:
  assumes "resolve_casinos cs ps dk = (cs', ps', dk')"
  shows "map player.dice ps' = map player.dice ps \<and>
         length ps' = length ps \<and>
         map casino.dice cs' = map casino.dice cs \<and>
         dk' = dk @ concat (map (\<lambda>c. filter (\<lambda>b. b \<noteq> 0) (bills c)) cs') \<and>
         list_all2 (\<lambda>c c'. \<exists>k. bills c' = drop k (bills c)) cs cs'"
  using assms
proof (induction cs arbitrary: ps dk cs' ps' dk')
  case Nil
  then show ?case by simp
next
  case (Cons c cs)
  obtain c1 ps1 dk1 where r1: "resolve_casino c ps dk = (c1, ps1, dk1)"
    by (cases "resolve_casino c ps dk") auto
  obtain rest ps2 dk2 where r2: "resolve_casinos cs ps1 dk1 = (rest, ps2, dk2)"
    by (cases "resolve_casinos cs ps1 dk1") auto
  from Cons.prems r1 r2 have eqs: "cs' = c1 # rest" "ps' = ps2" "dk' = dk2"
    by auto
  note ih = Cons.IH [OF r2]
  from r1 have c1: "casino.dice c1 = casino.dice c" "map player.dice ps1 = map player.dice ps"
    "length ps1 = length ps"
    "dk1 = dk @ filter (\<lambda>b. b \<noteq> 0) (bills c1)" "\<exists>k. bills c1 = drop k (bills c)"
    using pay_loop_bills [of "rev (ranked_of (casino.dice c))" "Counter (casino.dice c)" ps "bills c"]
    by (auto simp: resolve_casino_eq Let_def pay_loop_dice pay_loop_length)
  show ?case using ih c1 by (simp add: eqs)
qed

lemma is_end_round_cong:
  assumes "map player.dice (players g') = map player.dice (players g)"
    and "num_players g' = num_players g" and "nat (num_players g) \<le> length (players g)"
  shows "is_end_round g' = is_end_round g"
proof -
  have "player.dice (players g' ! i) = player.dice (players g ! i)" if "i < nat (num_players g)" for i
  proof -
    from that assms(3) have i: "i < length (players g)" by simp
    moreover from assms(1) have "length (players g') = length (players g)"
      by (metis length_map)
    ultimately have "map player.dice (players g') ! i = player.dice (players g' ! i)"
      "map player.dice (players g) ! i = player.dice (players g ! i)" by simp_all
    with assms(1) show ?thesis by simp
  qed
  then show ?thesis by (simp add: is_end_round_def list_all_iff assms(2))
qed

section \<open>What a move does\<close>

text \<open>
  C7. On a game object, with six roll counts none of which is negative, \<^verbatim>\<open>play_move\<close>
  raises its assertion error and leaves the object as it was when the player is not an
  active player, when the casino index is not one of 0 to 5, or when the count rolled for
  the chosen casino is 0. Otherwise it returns normally, the player's remaining dice are
  lower by that count and the player's dice on that casino are higher by that count.
\<close>

theorem play_move_spec:
  assumes "wf_game g" and "length roll_counts = 6" and "list_all (\<lambda>r. 0 \<le> r) roll_counts"
  shows "(\<not> (0 \<le> player \<and> player < num_players g) \<or> \<not> (0 \<le> action \<and> action < 6)
            \<or> roll_counts ! nat action = 0
          \<longrightarrow> (\<exists>msg. play_move g player action roll_counts = (Some (AssertionError msg), g)))
       \<and> (0 \<le> player \<and> player < num_players g \<and> 0 \<le> action \<and> action < 6
            \<and> roll_counts ! nat action \<noteq> 0
          \<longrightarrow> (\<exists>g'. play_move g player action roll_counts = (None, g')
                \<and> player.dice (players g' ! nat player)
                    = player.dice (players g ! nat player) - roll_counts ! nat action
                \<and> casino.dice (casinos g' ! nat action) ! nat player
                    = casino.dice (casinos g ! nat action) ! nat player + roll_counts ! nat action))"
proof (intro conjI impI)
  assume "\<not> (0 \<le> player \<and> player < num_players g) \<or> \<not> (0 \<le> action \<and> action < 6)
            \<or> roll_counts ! nat action = 0"
  moreover have "nat action < length roll_counts" if "0 \<le> action \<and> action < 6"
    using that assms(2) by auto
  ultimately show "\<exists>msg. play_move g player action roll_counts = (Some (AssertionError msg), g)"
    by (auto simp: play_move_def)
next
  assume ok: "0 \<le> player \<and> player < num_players g \<and> 0 \<le> action \<and> action < 6
            \<and> roll_counts ! nat action \<noteq> 0"
  then have a: "nat action < length roll_counts" "nat action < length (casinos g)"
    using assms(1,2) by (auto simp: wf_game_def)
  from ok assms(1) have p: "nat player < length (players g)"
    by (auto simp: wf_game_def)
  from a assms(1) have "length (casino.dice (casinos g ! nat action)) = nat MAX_PLAYERS"
    by (simp add: wf_game_def list_all_length)
  with ok assms(1) have pc: "nat player < length (casino.dice (casinos g ! nat action))"
    by (auto simp: wf_game_def)
  from a(1) assms(3) have "0 \<le> roll_counts ! nat action"
    by (simp add: list_all_length)
  with ok have pos: "roll_counts ! nat action > 0" by simp
  show "\<exists>g'. play_move g player action roll_counts = (None, g')
                \<and> player.dice (players g' ! nat player)
                    = player.dice (players g ! nat player) - roll_counts ! nat action
                \<and> casino.dice (casinos g' ! nat action) ! nat player
                    = casino.dice (casinos g ! nat action) ! nat player + roll_counts ! nat action"
    using ok a p pc pos by (simp add: play_move_def Let_def)
qed

theorem play_move_spec_witness:
  "wf_game example_game \<and> length [3, 0, 2, 0, 3, 0 :: int] = 6 \<and> list_all (\<lambda>r. 0 \<le> r) [3, 0, 2, 0, 3, 0 :: int]
   \<and> (\<exists>msg. play_move example_game 2 0 [3, 0, 2, 0, 3, 0] = (Some (AssertionError msg), example_game))
   \<and> (\<exists>msg. play_move example_game 0 6 [3, 0, 2, 0, 3, 0] = (Some (AssertionError msg), example_game))
   \<and> (\<exists>msg. play_move example_game 0 1 [3, 0, 2, 0, 3, 0] = (Some (AssertionError msg), example_game))
   \<and> (\<exists>g'. play_move example_game 1 4 [3, 0, 2, 0, 3, 0] = (None, g')
         \<and> player.dice (players g' ! 1) = 5 \<and> casino.dice (casinos g' ! 4) ! 1 = 3)"
proof -
  have h: "wf_game example_game" "length [3, 0, 2, 0, 3, 0 :: int] = 6"
    "list_all (\<lambda>r. 0 \<le> r) [3, 0, 2, 0, 3, 0 :: int]"
    by (simp_all add: wf_example_game)
  have n: "num_players example_game = 2" by (simp add: example_game_def)
  have v: "player.dice (players example_game ! 1) = 8" "casino.dice (casinos example_game ! 4) ! 1 = 0"
    by (simp_all add: example_game_def)
  show ?thesis
    using h play_move_spec [OF h, of 2 0] play_move_spec [OF h, of 0 6]
      play_move_spec [OF h, of 0 1] play_move_spec [OF h, of 1 4] n v
    by (simp add: eval_nat_numeral)
qed


section \<open>The final round\<close>

text \<open>
  C9. When the round is over and it is round \<open>NUM_ROUNDS\<close>, \<^verbatim>\<open>advance_round\<close> returns
  normally, whatever the shuffle; the casinos, the players and the deck are what the
  payouts and the recycling make of them, so the deck keeps its order and gets the unpaid
  bills at its end, every casino keeps its dice counts and a tail of its bills, every
  player keeps the remaining dice; the round and the first player are as before, and
  \<^verbatim>\<open>is_end_game\<close> holds afterwards.
\<close>

theorem final_round_frame:
  assumes "wf_game g" and "round_no g = NUM_ROUNDS" and "is_end_round g"
  shows "\<exists>g'. advance_round shuffle g = (None, g') \<and>
           (casinos g', players g', deck g') = resolve_casinos (casinos g) (players g) (deck g) \<and>
           deck g' = deck g @ concat (map (\<lambda>c. filter (\<lambda>b. b \<noteq> 0) (bills c)) (casinos g')) \<and>
           map casino.dice (casinos g') = map casino.dice (casinos g) \<and>
           list_all2 (\<lambda>c c'. \<exists>k. bills c' = drop k (bills c)) (casinos g) (casinos g') \<and>
           map player.dice (players g') = map player.dice (players g) \<and>
           round_no g' = round_no g \<and> first_player g' = first_player g \<and>
           num_players g' = num_players g \<and>
           is_end_game g'"
proof -
  obtain cs ps dk where r: "resolve_casinos (casinos g) (players g) (deck g) = (cs, ps, dk)"
    by (cases "resolve_casinos (casinos g) (players g) (deck g)") auto
  let ?g' = "g\<lparr>players := ps, deck := dk, casinos := cs\<rparr>"
  have adv: "advance_round shuffle g = (None, ?g')"
    using assms(2,3) r by (simp add: advance_round_def)
  note fr = resolve_casinos_frame [OF r]
  have "nat (num_players g) \<le> length (players g)"
    using assms(1) by (auto simp: wf_game_def)
  with fr have "is_end_round ?g' = is_end_round g"
    by (intro is_end_round_cong) simp_all
  with assms(2,3) have "is_end_game ?g'" by (simp add: is_end_game_def)
  with adv r fr show ?thesis by simp
qed


theorem final_round_frame_witness:
  "wf_game round4_game \<and> round_no round4_game = NUM_ROUNDS \<and> is_end_round round4_game \<and>
   (\<exists>g'. advance_round rev round4_game = (None, g') \<and>
      map player.dice (players g') = map player.dice (players round4_game) \<and>
      round_no g' = 4 \<and> first_player g' = 1 \<and> is_end_game g')"
proof -
  have h: "wf_game round4_game" "round_no round4_game = NUM_ROUNDS" "is_end_round round4_game"
    by (simp_all add: wf_round4_game round4_end_round) (simp add: round4_game_def NUM_ROUNDS_def)
  have v: "round_no round4_game = 4" "first_player round4_game = 1"
    by (simp_all add: round4_game_def)
  from final_round_frame [OF h, of rev] obtain g' where
    "advance_round rev round4_game = (None, g')"
    "map player.dice (players g') = map player.dice (players round4_game)"
    "round_no g' = round_no round4_game" "first_player g' = first_player round4_game"
    "is_end_game g'"
    by blast
  with h v show ?thesis by auto
qed


section \<open>What the dealer deals\<close>

lemma pad_eq: "pad bs = bs @ replicate (5 - length bs) 0"
proof (induction bs rule: pad.induct)
  case (1 bs)
  show ?case
  proof (cases "length bs < 5")
    case True
    then have "pad bs = pad (bs @ [0])" by (subst pad.simps) simp
    also have "\<dots> = (bs @ [0]) @ replicate (5 - length (bs @ [0])) 0" using True by (rule 1)
    also have "\<dots> = bs @ replicate (5 - length bs) 0"
      using True by (simp add: replicate_app_Cons_same Suc_diff_Suc flip: replicate_Suc)
    finally show ?thesis .
  next
    case False
    then show ?thesis by (subst pad.simps) simp
  qed
qed

lemma draw_Inr:
  assumes "draw bs dk = Inr (bs', dk')"
  shows "50 \<le> sum_list bs' \<and> (\<exists>popped. bs' = bs @ popped \<and> dk = dk' @ rev popped)"
  using assms
proof (induction bs dk rule: draw.induct)
  case (1 bs dk)
  show ?case
  proof (cases "sum_list bs < 50")
    case False
    with "1.prems" show ?thesis by (subst (asm) draw.simps) auto
  next
    case True
    show ?thesis
    proof (cases "dk = []")
      case True
      with \<open>sum_list bs < 50\<close> "1.prems" show ?thesis by (subst (asm) draw.simps) simp
    next
      case False
      with True "1.prems" have "draw (bs @ [last dk]) (butlast dk) = Inr (bs', dk')"
        by (subst (asm) draw.simps) simp
      from "1.IH" [OF True False this] obtain popped where
        s: "50 \<le> sum_list bs'" and p: "bs' = (bs @ [last dk]) @ popped" "butlast dk = dk' @ rev popped"
        by blast
      from p(2) False have "dk = dk' @ rev (last dk # popped)"
        by (metis append_butlast_last_id append.assoc rev.simps(2))
      with s p(1) show ?thesis by auto
    qed
  qed
qed

lemma draw_small:
  assumes "draw bs dk = Inr (bs', dk')" and "\<forall>b\<in>set bs. 10 \<le> b" and "\<forall>b\<in>set dk. 10 \<le> b"
    and "length bs \<le> 5"
  shows "length bs' \<le> 5"
  using assms
proof (induction bs dk rule: draw.induct)
  case (1 bs dk)
  show ?case
  proof (cases "sum_list bs < 50")
    case False
    with "1.prems" show ?thesis by (subst (asm) draw.simps) auto
  next
    case True
    have "10 * int (length bs) \<le> sum_list bs"
      using "1.prems"(2) by (induction bs) auto
    with True have len: "length bs \<le> 4" by simp
    show ?thesis
    proof (cases "dk = []")
      case True
      with \<open>sum_list bs < 50\<close> "1.prems" show ?thesis by (subst (asm) draw.simps) simp
    next
      case False
      with True "1.prems" have d: "draw (bs @ [last dk]) (butlast dk) = Inr (bs', dk')"
        by (subst (asm) draw.simps) simp
      have "\<forall>b\<in>set (bs @ [last dk]). 10 \<le> b" using "1.prems"(2,3) False by auto
      moreover have "\<forall>b\<in>set (butlast dk). 10 \<le> b" using "1.prems"(3) by (auto dest: in_set_butlastD)
      moreover have "length (bs @ [last dk]) \<le> 5" using len by simp
      ultimately show ?thesis using "1.IH" [OF True False d] by blast
    qed
  qed
qed

lemma draw_enough:
  assumes "\<forall>b\<in>set bs. 10 \<le> b" and "\<forall>b\<in>set dk. 10 \<le> b" and "5 \<le> length bs + length dk"
  shows "\<exists>bs' dk'. draw bs dk = Inr (bs', dk')"
  using assms
proof (induction bs dk rule: draw.induct)
  case (1 bs dk)
  show ?case
  proof (cases "sum_list bs < 50")
    case False
    then show ?thesis by (subst draw.simps) simp
  next
    case True
    have "10 * int (length bs) \<le> sum_list bs"
      using "1.prems"(1) by (induction bs) auto
    with True have len: "length bs \<le> 4" by simp
    with "1.prems"(3) have ne: "dk \<noteq> []" by auto
    have "\<forall>b\<in>set (bs @ [last dk]). 10 \<le> b" using "1.prems"(1,2) ne by auto
    moreover have "\<forall>b\<in>set (butlast dk). 10 \<le> b" using "1.prems"(2) by (auto dest: in_set_butlastD)
    moreover have "5 \<le> length (bs @ [last dk]) + length (butlast dk)" using "1.prems"(3) ne by simp
    ultimately have "\<exists>bs' dk'. draw (bs @ [last dk]) (butlast dk) = Inr (bs', dk')"
      using "1.IH" [OF True ne] by blast
    with True ne show ?thesis by (subst draw.simps) simp
  qed
qed


lemma dealt_list:
  assumes "\<forall>b\<in>set popped. 10 \<le> b" and "length popped \<le> 5"
  shows "length (rev (sort (pad popped))) = 5"
    and "sorted (rev (rev (sort (pad popped))))"
    and "mset (filter (\<lambda>b. b \<noteq> 0) (rev (sort (pad popped)))) = mset popped"
    and "set (rev (sort (pad popped))) \<subseteq> insert 0 (set popped)"
proof -
  show "length (rev (sort (pad popped))) = 5" using assms(2) by (simp add: pad_eq)
  show "sorted (rev (rev (sort (pad popped))))" by simp
  have a: "filter_mset (\<lambda>b. b \<noteq> 0) (mset popped) = mset popped"
    using assms(1) by (intro filter_mset_cong [where g = "\<lambda>_. True", simplified]) auto
  have b: "filter_mset (\<lambda>b. b \<noteq> 0) (mset (replicate k (0::int))) = {#}" for k
    by (induction k) auto
  have "mset (filter (\<lambda>b. b \<noteq> 0) (rev (sort (pad popped))))
          = filter_mset (\<lambda>b. b \<noteq> 0) (mset (pad popped))"
    by simp
  also have "\<dots> = mset popped"
    unfolding pad_eq mset_append filter_union_mset a b by simp
  finally show "mset (filter (\<lambda>b. b \<noteq> 0) (rev (sort (pad popped)))) = mset popped" .
  show "set (rev (sort (pad popped))) \<subseteq> insert 0 (set popped)"
    by (auto simp: pad_eq)
qed

lemma deal_loop_Inr:
  assumes "deal_loop n dk = Inr (bss, dk')" and "\<forall>b\<in>set dk. 10 \<le> b"
  shows "length bss = n \<and>
         (\<forall>bs\<in>set bss. length bs = 5 \<and> sorted (rev bs) \<and>
            50 \<le> sum_list (filter (\<lambda>b. b \<noteq> 0) bs) \<and> set bs \<subseteq> insert 0 (set dk)) \<and>
         mset dk = mset dk' + mset (concat (map (filter (\<lambda>b. b \<noteq> 0)) bss)) \<and>
         length dk \<le> length dk' + 5 * n"
  using assms
proof (induction n arbitrary: dk bss dk')
  case 0
  then show ?case by simp
next
  case (Suc n)
  from Suc.prems(1) obtain popped dk1 where d: "draw [] dk = Inr (popped, dk1)"
    by (auto split: sum.splits)
  with Suc.prems(1) obtain rest where r: "deal_loop n dk1 = Inr (rest, dk')"
    and bss: "bss = rev (sort (pad popped)) # rest"
    by (auto split: sum.splits)
  from draw_Inr [OF d] have s: "50 \<le> sum_list popped" and dk: "dk = dk1 @ rev popped"
    by auto
  from draw_small [OF d] Suc.prems(2) have len: "length popped \<le> 5" by simp
  from dk Suc.prems(2) have ge: "\<forall>b\<in>set popped. 10 \<le> b" "\<forall>b\<in>set dk1. 10 \<le> b" by auto
  note dl = dealt_list [OF ge(1) len]
  note ih = Suc.IH [OF r ge(2)]
  have "sum_list (filter (\<lambda>b. b \<noteq> 0) (rev (sort (pad popped)))) = sum_list popped"
    using dl(3) by (metis sum_mset_sum_list)
  with s have s': "50 \<le> sum_list (filter (\<lambda>b. b \<noteq> 0) (rev (sort (pad popped))))" by simp
  have sub: "set (rev (sort (pad popped))) \<subseteq> insert 0 (set dk)"
    using dl(4) dk by auto
  have "length bss = Suc n" using ih bss by simp
  moreover have "\<forall>bs\<in>set bss. length bs = 5 \<and> sorted (rev bs) \<and>
            50 \<le> sum_list (filter (\<lambda>b. b \<noteq> 0) bs) \<and> set bs \<subseteq> insert 0 (set dk)"
  proof
    fix bs assume "bs \<in> set bss"
    then consider "bs = rev (sort (pad popped))" | "bs \<in> set rest" using bss by auto
    then show "length bs = 5 \<and> sorted (rev bs) \<and>
            50 \<le> sum_list (filter (\<lambda>b. b \<noteq> 0) bs) \<and> set bs \<subseteq> insert 0 (set dk)"
    proof cases
      case 1
      then show ?thesis using dl(1,2) s' sub by simp
    next
      case 2
      with ih have "length bs = 5 \<and> sorted (rev bs) \<and>
            50 \<le> sum_list (filter (\<lambda>b. b \<noteq> 0) bs) \<and> set bs \<subseteq> insert 0 (set dk1)" by blast
      then show ?thesis using dk by auto
    qed
  qed
  moreover have "mset dk = mset dk' + mset (concat (map (filter (\<lambda>b. b \<noteq> 0)) bss))"
    using ih dl(3) by (simp add: dk bss)
  moreover have "length dk \<le> length dk' + 5 * Suc n"
    using ih len by (simp add: dk)
  ultimately show ?case by blast
qed

lemma deal_loop_enough:
  assumes "\<forall>b\<in>set dk. 10 \<le> b" and "5 * n \<le> length dk"
  shows "\<exists>bss dk'. deal_loop n dk = Inr (bss, dk')"
  using assms
proof (induction n arbitrary: dk)
  case 0
  then show ?case by simp
next
  case (Suc n)
  from Suc.prems have "\<exists>bs' dk'. draw [] dk = Inr (bs', dk')"
    by (intro draw_enough) auto
  then obtain popped dk1 where d: "draw [] dk = Inr (popped, dk1)" by blast
  from draw_Inr [OF d] have dk: "dk = dk1 @ rev popped" by auto
  from draw_small [OF d] Suc.prems(1) have len: "length popped \<le> 5" by simp
  from dk Suc.prems(1) have "\<forall>b\<in>set dk1. 10 \<le> b" by auto
  moreover from dk len Suc.prems(2) have "5 * n \<le> length dk1" by simp
  ultimately obtain rest dk' where "deal_loop n dk1 = Inr (rest, dk')"
    using Suc.IH by blast
  with d show ?case by simp
qed

lemma full_deck_bills: "\<forall>b\<in>set full_deck. 10 \<le> b \<and> b \<le> 90"
  by (simp add: full_deck_def BILL_COUNTS_def)

lemma length_full_deck: "length full_deck = 54"
  by (simp add: full_deck_def BILL_COUNTS_def)

text \<open>
  C8. For a deck of bills (each at least 10, the smallest denomination): with 30 bills or
  more \<^verbatim>\<open>deal_bills\<close> returns; the draw loop of one casino takes at most 5 bills off the
  end of the deck, worth 50 or more; and whenever \<^verbatim>\<open>deal_bills\<close> returns, it returns 6
  casinos, each with exactly 5 bill slots in descending order (so the empty slots are
  last), non-empty bills worth 50 or more and no dice, and the bills in the casinos are
  the ones missing from the deck.
\<close>

theorem deal_bills_spec:
  assumes "\<forall>b\<in>set dk. 10 \<le> b"
  shows "(30 \<le> length dk \<longrightarrow> (\<exists>cs dk'. deal_bills dk = Inr (cs, dk'))) \<and>
         (\<forall>popped dk'. draw [] dk = Inr (popped, dk') \<longrightarrow>
            length popped \<le> 5 \<and> 50 \<le> sum_list popped \<and> dk = dk' @ rev popped) \<and>
         (\<forall>cs dk'. deal_bills dk = Inr (cs, dk') \<longrightarrow>
            length cs = 6 \<and>
            (\<forall>c\<in>set cs. length (bills c) = 5 \<and> sorted (rev (bills c)) \<and>
               50 \<le> sum_list (filter (\<lambda>b. b \<noteq> 0) (bills c)) \<and>
               casino.dice c = [0, 0, 0, 0, 0]) \<and>
            mset dk = mset dk' + mset (concat (map (\<lambda>c. filter (\<lambda>b. b \<noteq> 0) (bills c)) cs)))"
proof (intro conjI allI impI)
  assume "30 \<le> length dk"
  with assms obtain bss dk' where "deal_loop 6 dk = Inr (bss, dk')"
    using deal_loop_enough [of dk 6] by auto
  then show "\<exists>cs dk'. deal_bills dk = Inr (cs, dk')" by (simp add: deal_bills_def)
next
  fix popped dk' assume d: "draw [] dk = Inr (popped, dk')"
  from draw_small [OF d] assms show "length popped \<le> 5" by simp
  from draw_Inr [OF d] show "50 \<le> sum_list popped" "dk = dk' @ rev popped" by auto
next
  fix cs dk' assume d: "deal_bills dk = Inr (cs, dk')"
  then obtain bss where l: "deal_loop 6 dk = Inr (bss, dk')"
    and cs: "cs = map (\<lambda>bs. \<lparr>bills = bs, dice = replicate (nat MAX_PLAYERS) 0\<rparr>) bss"
    by (auto simp: deal_bills_def split: sum.splits)
  note dl = deal_loop_Inr [OF l assms]
  show "length cs = 6" using dl by (simp add: cs)
  show "\<forall>c\<in>set cs. length (bills c) = 5 \<and> sorted (rev (bills c)) \<and>
               50 \<le> sum_list (filter (\<lambda>b. b \<noteq> 0) (bills c)) \<and>
               casino.dice c = [0, 0, 0, 0, 0]"
    using dl by (auto simp: cs MAX_PLAYERS_def eval_nat_numeral)
  have "map (\<lambda>c. filter (\<lambda>b. b \<noteq> 0) (bills c)) cs = map (filter (\<lambda>b. b \<noteq> 0)) bss"
    by (simp add: cs comp_def)
  with dl show "mset dk = mset dk' + mset (concat (map (\<lambda>c. filter (\<lambda>b. b \<noteq> 0) (bills c)) cs))"
    by simp
qed


theorem deal_bills_spec_witness:
  "list_all (\<lambda>b. 10 \<le> b) full_deck \<and>
   (\<exists>cs dk'. deal_bills full_deck = Inr (cs, dk') \<and> length cs = 6 \<and>
      (\<forall>c\<in>set cs. length (bills c) = 5 \<and> sorted (rev (bills c)) \<and>
         50 \<le> sum_list (filter (\<lambda>b. b \<noteq> 0) (bills c)) \<and> casino.dice c = [0, 0, 0, 0, 0]))"
proof -
  have h: "\<forall>b\<in>set full_deck. 10 \<le> b" using full_deck_bills by blast
  note spec = deal_bills_spec [OF h]
  from spec obtain cs dk' where d: "deal_bills full_deck = Inr (cs, dk')"
    by (auto simp: length_full_deck)
  with spec have "length cs = 6 \<and>
      (\<forall>c\<in>set cs. length (bills c) = 5 \<and> sorted (rev (bills c)) \<and>
         50 \<le> sum_list (filter (\<lambda>b. b \<noteq> 0) (bills c)) \<and> casino.dice c = [0, 0, 0, 0, 0])"
    by blast
  with h d show ?thesis unfolding list_all_iff by blast
qed

section \<open>Payouts\<close>

lemma pay_loop_eq:
  "pay_loop xs cnt ps bs =
     (fold credit (zip (filter (\<lambda>(p, k). cnt k = 1) xs) bs) ps,
      drop (length (filter (\<lambda>(p, k). cnt k = 1) xs)) bs)"
proof (induction xs cnt ps bs rule: pay_loop.induct)
  case (1 counts ps bs)
  show ?case by simp
next
  case (2 p k rest counts ps bs)
  show ?case
  proof (cases "counts k = 1")
    case False
    with 2 show ?thesis by simp
  next
    case True
    show ?thesis
    proof (cases bs)
      case Nil
      with True 2 show ?thesis by simp
    next
      case (Cons b bs')
      with True 2 show ?thesis by (simp add: credit_def)
    qed
  qed
qed

lemma resolve_casino_winners:
  "resolve_casino c ps dk =
     (c\<lparr>bills := drop (length (winners (casino.dice c))) (bills c)\<rparr>,
      fold credit (zip (winners (casino.dice c)) (bills c)) ps,
      dk @ filter (\<lambda>b. b \<noteq> 0) (drop (length (winners (casino.dice c))) (bills c)))"
  by (simp add: resolve_casino_eq pay_loop_eq winners_def Counter_def Let_def)

lemma fold_credit_other:
  "i \<notin> fst ` fst ` set ws \<Longrightarrow> fold credit ws ps ! i = ps ! i"
  by (induction ws arbitrary: ps) (auto simp: credit_def)

lemma fold_credit_length: "length (fold credit ws ps) = length ps"
  by (induction ws arbitrary: ps) (auto simp: credit_def)

lemma set_ranked_of: "set (ranked_of ds) = {(i, ds ! i) | i. i < length ds}"
  by (auto simp: ranked_of_def in_set_enumerate_eq)

lemma distinct_ranked_of: "distinct (rev (ranked_of ds))"
  by (simp add: ranked_of_def)

lemma count_list_card: "count_list xs y = card {i. i < length xs \<and> xs ! i = y}"
proof -
  have "{i. i < length xs \<and> y = xs ! i} = {i. i < length xs \<and> xs ! i = y}" by auto
  then show ?thesis by (simp add: count_list_eq_length_filter length_filter_conv_card)
qed

lemma count_list_tied:
  assumes "i < length xs" "i' < length xs" "i \<noteq> i'" "xs ! i' = xs ! i"
  shows "2 \<le> count_list xs (xs ! i)"
proof -
  have "{i, i'} \<subseteq> {k. k < length xs \<and> xs ! k = xs ! i}" using assms by auto
  then have "card {i, i'} \<le> card {k. k < length xs \<and> xs ! k = xs ! i}"
    by (intro card_mono) auto
  with assms(3) show ?thesis by (simp add: count_list_card)
qed

lemma count_list_alone:
  assumes "j < length xs" "\<forall>i<length xs. i \<noteq> j \<longrightarrow> xs ! i \<noteq> xs ! j"
  shows "count_list xs (xs ! j) = 1"
proof -
  have "{k. k < length xs \<and> xs ! k = xs ! j} = {j}" using assms by auto
  then show ?thesis by (simp add: count_list_card)
qed

lemma filter_single:
  assumes "distinct xs" "x \<in> set xs" "P x" "\<forall>y\<in>set xs. P y \<longrightarrow> y = x"
  shows "filter P xs = [x]"
proof -
  have "{y \<in> set xs. P y} = {x}" using assms(2,3,4) by blast
  then have s: "set (filter P xs) = {x}" by simp
  have "distinct (filter P xs)" using assms(1) by simp
  then have "length (filter P xs) = card (set (filter P xs))" by (rule distinct_card [symmetric])
  then have "length (filter P xs) = Suc 0" by (simp only: s) simp
  then obtain y where y: "filter P xs = [y]" by (auto simp: length_Suc_conv)
  with s have "y = x" by (metis list.set_intros(1) singletonD)
  with y show ?thesis by simp
qed

lemma winners_tied:
  assumes "i < length ds" "count_list ds (ds ! i) \<noteq> 1"
  shows "i \<notin> fst ` set (winners ds)"
  using assms by (auto simp: winners_def set_ranked_of)

lemma map_insort_key: "map f (insort_key f x xs) = insort (f x) (map f xs)"
  by (induction xs) auto

lemma map_sort_key: "map f (sort_key f xs) = sort (map f xs)"
  by (induction xs) (auto simp: map_insort_key)

lemma distinct_filter_alone:
  assumes "mset ys = mset ds"
  shows "distinct (filter (\<lambda>k. count_list ds k = 1) ys)"
  unfolding distinct_count_atmost_1
proof
  fix a
  have c: "count (mset ys) a = count_list ds a"
    by (simp only: assms count_mset)
  show "count (mset (filter (\<lambda>k. count_list ds k = 1) ys)) a =
          (if a \<in> set (filter (\<lambda>k. count_list ds k = 1) ys) then 1 else 0)"
  proof (cases "count_list ds a = 1")
    case True
    then have "a \<in> set ds" by (cases "a \<in> set ds") simp_all
    then have "a \<in> set ys" using assms by (metis set_mset_mset)
    with True c show ?thesis by simp
  next
    case False
    then show ?thesis by simp
  qed
qed

lemma winners_counts:
  "sorted (rev (map snd (winners ds))) \<and> distinct (map snd (winners ds))"
proof -
  let ?P = "\<lambda>k. count_list ds k = 1"
  have "map snd (winners ds) = filter ?P (map snd (rev (ranked_of ds)))"
    by (simp add: winners_def filter_map comp_def case_prod_unfold)
  also have "map snd (rev (ranked_of ds)) = rev (map snd (ranked_of ds))"
    by (rule rev_map [symmetric])
  also have "map snd (ranked_of ds) = sort ds"
    by (simp add: ranked_of_def map_sort_key)
  finally have m: "map snd (winners ds) = filter ?P (rev (sort ds))" .
  have "rev (filter ?P (rev (sort ds))) = filter ?P (sort ds)"
    by (simp add: rev_filter)
  moreover have "sorted (filter ?P (sort ds))"
    using sorted_filter [of "\<lambda>x. x" "sort ds" ?P] by simp
  ultimately have "sorted (rev (filter ?P (rev (sort ds))))" by simp
  moreover have "distinct (filter ?P (rev (sort ds)))"
    by (rule distinct_filter_alone) simp
  ultimately show ?thesis by (simp only: m)
qed

lemma winners_single:
  assumes j: "j < length ds"
    and alone: "\<forall>i<length ds. i \<noteq> j \<longrightarrow> ds ! i \<noteq> ds ! j"
    and tied: "\<forall>i<length ds. i \<noteq> j \<longrightarrow> (\<exists>i'<length ds. i' \<noteq> i \<and> ds ! i' = ds ! i)"
  shows "winners ds = [(j, ds ! j)]"
  unfolding winners_def
proof (rule filter_single)
  show "distinct (rev (ranked_of ds))" by (rule distinct_ranked_of)
  show "(j, ds ! j) \<in> set (rev (ranked_of ds))" using j by (simp add: set_ranked_of)
  show "case (j, ds ! j) of (p, k) \<Rightarrow> count_list ds k = 1"
    using count_list_alone [OF j alone] by simp
  show "\<forall>y\<in>set (rev (ranked_of ds)). (case y of (p, k) \<Rightarrow> count_list ds k = 1) \<longrightarrow> y = (j, ds ! j)"
  proof (intro ballI impI)
    fix y assume y: "y \<in> set (rev (ranked_of ds))"
      and u: "case y of (p, k) \<Rightarrow> count_list ds k = 1"
    from y obtain i where i: "i < length ds" "y = (i, ds ! i)"
      by (auto simp: set_ranked_of)
    have "i = j"
    proof (rule ccontr)
      assume "i \<noteq> j"
      with tied i(1) obtain i' where "i' < length ds" "i' \<noteq> i" "ds ! i' = ds ! i" by blast
      with i(1) have "2 \<le> count_list ds (ds ! i)" using count_list_tied [of i ds i'] by simp
      with u i(2) show False by simp
    qed
    with i(2) show "y = (j, ds ! j)" by simp
  qed
qed

text \<open>
  C1. In the payout of one casino: when slots \<open>a\<close> and \<open>b\<close> both hold 3 dice, slot \<open>j\<close>
  holds 1 die and every other slot shares its count, which is neither 1 nor 3, with
  another of the other slots, then the cash of \<open>a\<close> and of \<open>b\<close> is unchanged, slot \<open>j\<close>
  gets the casino's first bill, no other slot changes, and the casino keeps the rest of
  its bills.
\<close>

theorem tie_three_three_one:
  assumes res: "resolve_casino c ps dk = (c', ps', dk')"
    and len: "length (casino.dice c) \<le> length ps" and bills: "bills c \<noteq> []"
    and a: "a < length (casino.dice c)" "casino.dice c ! a = 3"
    and b: "b < length (casino.dice c)" "casino.dice c ! b = 3" "a \<noteq> b"
    and j: "j < length (casino.dice c)" "casino.dice c ! j = 1"
    and others: "\<forall>i<length (casino.dice c). i \<notin> {a, b, j} \<longrightarrow>
        casino.dice c ! i \<noteq> 1 \<and> casino.dice c ! i \<noteq> 3 \<and>
        (\<exists>i'<length (casino.dice c). i' \<notin> {a, b, j} \<and> i' \<noteq> i \<and> casino.dice c ! i' = casino.dice c ! i)"
  shows "cash (ps' ! a) = cash (ps ! a) \<and> cash (ps' ! b) = cash (ps ! b) \<and>
         cash (ps' ! j) = cash (ps ! j) + hd (bills c) \<and>
         (\<forall>i. i \<noteq> j \<longrightarrow> ps' ! i = ps ! i) \<and>
         bills c' = tl (bills c)"
proof -
  let ?ds = "casino.dice c"
  have alone: "\<forall>i<length ?ds. i \<noteq> j \<longrightarrow> ?ds ! i \<noteq> ?ds ! j"
  proof (intro allI impI)
    fix i assume i: "i < length ?ds" "i \<noteq> j"
    consider "i = a" | "i = b" | "i \<notin> {a, b, j}" using i(2) by auto
    then show "?ds ! i \<noteq> ?ds ! j"
    proof cases
      case 1 then show ?thesis using a j by simp
    next
      case 2 then show ?thesis using b j by simp
    next
      case 3 with others i(1) j(2) show ?thesis by simp
    qed
  qed
  have tied: "\<forall>i<length ?ds. i \<noteq> j \<longrightarrow> (\<exists>i'<length ?ds. i' \<noteq> i \<and> ?ds ! i' = ?ds ! i)"
  proof (intro allI impI)
    fix i assume i: "i < length ?ds" "i \<noteq> j"
    consider "i = a" | "i = b" | "i \<notin> {a, b, j}" using i(2) by auto
    then show "\<exists>i'<length ?ds. i' \<noteq> i \<and> ?ds ! i' = ?ds ! i"
    proof cases
      case 1 then show ?thesis using a b by (intro exI [of _ b]) simp
    next
      case 2 then show ?thesis using a b by (intro exI [of _ a]) simp
    next
      case 3 with others i(1) show ?thesis by blast
    qed
  qed
  have w: "winners ?ds = [(j, 1)]"
    using winners_single [OF j(1) alone tied] j(2) by simp
  obtain b0 bs where bs: "bills c = b0 # bs" using bills by (cases "bills c") auto
  from res have ps': "ps' = ps[j := (ps ! j)\<lparr>cash := cash (ps ! j) + b0\<rparr>]" and c': "bills c' = bs"
    by (auto simp: resolve_casino_winners w bs credit_def)
  have jl: "j < length ps" using j(1) len by simp
  have "a \<noteq> j" "b \<noteq> j" using a b j by auto
  then show ?thesis using jl by (simp add: ps' c' bs)
qed

lemma count_list_alone_iff:
  assumes "i < length ds"
  shows "count_list ds (ds ! i) = 1 \<longleftrightarrow> (\<forall>i'<length ds. i' \<noteq> i \<longrightarrow> ds ! i' \<noteq> ds ! i)"
proof
  assume c: "count_list ds (ds ! i) = 1"
  show "\<forall>i'<length ds. i' \<noteq> i \<longrightarrow> ds ! i' \<noteq> ds ! i"
  proof (intro allI impI notI)
    fix i' assume "i' < length ds" "i' \<noteq> i" "ds ! i' = ds ! i"
    with assms have "2 \<le> count_list ds (ds ! i)" using count_list_tied [of i ds i'] by simp
    with c show False by simp
  qed
next
  assume "\<forall>i'<length ds. i' \<noteq> i \<longrightarrow> ds ! i' \<noteq> ds ! i"
  with assms show "count_list ds (ds ! i) = 1" by (rule count_list_alone)
qed

lemma set_winners:
  "set (winners ds) =
     {(i, ds ! i) | i. i < length ds \<and> (\<forall>i'<length ds. i' \<noteq> i \<longrightarrow> ds ! i' \<noteq> ds ! i)}"
proof -
  have "set (winners ds) = {(i, ds ! i) | i. i < length ds \<and> count_list ds (ds ! i) = 1}"
    by (auto simp: winners_def set_ranked_of)
  also have "\<dots> = {(i, ds ! i) | i. i < length ds \<and> (\<forall>i'<length ds. i' \<noteq> i \<longrightarrow> ds ! i' \<noteq> ds ! i)}"
    using count_list_alone_iff [of _ ds] by blast
  finally show ?thesis .
qed

theorem tie_three_three_one_witness:
  "resolve_casino tie_casino2 no_cash [10] =
     (tie_casino2\<lparr>bills := [30, 20, 0, 0]\<rparr>, no_cash[0 := \<lparr>cash = 80, dice = 0\<rparr>], [10, 30, 20]) \<and>
   casino.dice tie_casino2 ! 1 = 3 \<and> casino.dice tie_casino2 ! 3 = 3 \<and> casino.dice tie_casino2 ! 0 = 1 \<and>
   casino.dice tie_casino2 ! 2 = 5 \<and> casino.dice tie_casino2 ! 4 = 5 \<and>
   cash (no_cash[0 := \<lparr>cash = 80, dice = 0\<rparr>] ! 1) = cash (no_cash ! 1) \<and>
   cash (no_cash[0 := \<lparr>cash = 80, dice = 0\<rparr>] ! 3) = cash (no_cash ! 3) \<and>
   cash (no_cash[0 := \<lparr>cash = 80, dice = 0\<rparr>] ! 0) = cash (no_cash ! 0) + 80"
proof -
  let ?ps' = "no_cash[0 := \<lparr>cash = 80, dice = 0\<rparr>]"
  have res: "resolve_casino tie_casino2 no_cash [10] =
     (tie_casino2\<lparr>bills := [30, 20, 0, 0]\<rparr>, ?ps', [10, 30, 20])"
    by code_simp
  have d: "casino.dice tie_casino2 = [1, 3, 5, 3, 5]" "bills tie_casino2 = [80, 30, 20, 0, 0]"
    by (simp_all add: tie_casino2_def)
  have others: "\<forall>i<length (casino.dice tie_casino2). i \<notin> {1, 3, 0} \<longrightarrow>
        casino.dice tie_casino2 ! i \<noteq> 1 \<and> casino.dice tie_casino2 ! i \<noteq> 3 \<and>
        (\<exists>i'<length (casino.dice tie_casino2). i' \<notin> {1, 3, 0} \<and> i' \<noteq> i \<and>
           casino.dice tie_casino2 ! i' = casino.dice tie_casino2 ! i)"
  proof (intro allI impI)
    fix i assume "i < length (casino.dice tie_casino2)" "i \<notin> {1, 3, 0}"
    then have "i = 2 \<or> i = 4" by (simp add: d) arith
    then consider "i = 2" | "i = 4" by blast
    then show "casino.dice tie_casino2 ! i \<noteq> 1 \<and> casino.dice tie_casino2 ! i \<noteq> 3 \<and>
        (\<exists>i'<length (casino.dice tie_casino2). i' \<notin> {1, 3, 0} \<and> i' \<noteq> i \<and>
           casino.dice tie_casino2 ! i' = casino.dice tie_casino2 ! i)"
    proof cases
      case 1 then show ?thesis by (auto simp: d intro!: exI [of _ 4])
    next
      case 2 then show ?thesis by (auto simp: d intro!: exI [of _ 2])
    qed
  qed
  have "cash (?ps' ! 1) = cash (no_cash ! 1) \<and> cash (?ps' ! 3) = cash (no_cash ! 3) \<and>
        cash (?ps' ! 0) = cash (no_cash ! 0) + hd (bills tie_casino2)"
    using tie_three_three_one [OF res _ _ _ _ _ _ _ _ _ others]
    by (simp add: d no_cash_def)
  then show ?thesis using res by (simp add: d)
qed

text \<open>
  C2, amended. In the payout of one casino, a slot whose count another slot shares is
  not paid, and a shared count takes no bill off the casino: the bills go, from the
  first (most valuable) on, to the slots whose count no other slot has, in descending
  order of their counts, one bill each while bills remain. The bills not taken stay in
  the casino's list, and the non-empty ones among them are appended to the deck.
\<close>

theorem tied_counts_unpaid:
  assumes res: "resolve_casino c ps dk = (c', ps', dk')"
  shows "(\<forall>i<length (casino.dice c).
            (\<exists>i'<length (casino.dice c). i' \<noteq> i \<and> casino.dice c ! i' = casino.dice c ! i)
            \<longrightarrow> ps' ! i = ps ! i) \<and>
         ps' = fold credit (zip (winners (casino.dice c)) (bills c)) ps \<and>
         bills c' = drop (length (winners (casino.dice c))) (bills c) \<and>
         dk' = dk @ filter (\<lambda>b. b \<noteq> 0) (bills c') \<and>
         set (winners (casino.dice c)) =
           {(i, casino.dice c ! i) | i. i < length (casino.dice c) \<and>
              (\<forall>i'<length (casino.dice c). i' \<noteq> i \<longrightarrow> casino.dice c ! i' \<noteq> casino.dice c ! i)} \<and>
         sorted (rev (map snd (winners (casino.dice c)))) \<and>
         distinct (map snd (winners (casino.dice c)))"
proof -
  let ?ds = "casino.dice c"
  from res have ps': "ps' = fold credit (zip (winners ?ds) (bills c)) ps"
    and c': "bills c' = drop (length (winners ?ds)) (bills c)"
    and dk': "dk' = dk @ filter (\<lambda>b. b \<noteq> 0) (bills c')"
    by (auto simp: resolve_casino_winners)
  have "ps' ! i = ps ! i"
    if i: "i < length ?ds" and t: "\<exists>i'<length ?ds. i' \<noteq> i \<and> ?ds ! i' = ?ds ! i" for i
  proof -
    from t obtain i' where "i' < length ?ds" "i' \<noteq> i" "?ds ! i' = ?ds ! i" by blast
    with i have "2 \<le> count_list ?ds (?ds ! i)" using count_list_tied [of i ?ds i'] by simp
    then have "i \<notin> fst ` set (winners ?ds)" using i by (intro winners_tied) simp_all
    moreover have "fst ` set (zip (winners ?ds) (bills c)) \<subseteq> set (winners ?ds)"
      by (auto dest: set_zip_leftD)
    ultimately have "i \<notin> fst ` fst ` set (zip (winners ?ds) (bills c))" by blast
    then show ?thesis unfolding ps' by (rule fold_credit_other)
  qed
  with ps' c' dk' set_winners [of ?ds] winners_counts [of ?ds] show ?thesis by blast
qed

text \<open>
  C2, as stated, fails. With bills 90 and 50 and dice counts 3, 3, 1, 0, 0 the two slots
  with 3 dice are tied and unpaid, but the 90 that the tie passes over is paid to slot 2,
  which holds the lower count 1; it does not stay in the casino and is not recycled. The
  50 is what stays and goes to the deck.
\<close>

theorem tie_bill_counterexample:
  "resolve_casino tie_casino no_cash [] =
     (\<lparr>bills = [50, 0, 0, 0], dice = [3, 3, 1, 0, 0]\<rparr>,
      [\<lparr>cash = 0, dice = 0\<rparr>, \<lparr>cash = 0, dice = 0\<rparr>, \<lparr>cash = 90, dice = 0\<rparr>,
       \<lparr>cash = 0, dice = 0\<rparr>, \<lparr>cash = 0, dice = 0\<rparr>],
      [50])"
  by code_simp

theorem tied_counts_unpaid_witness:
  "resolve_casino tie_casino no_cash [] =
     (tie_casino\<lparr>bills := [50, 0, 0, 0]\<rparr>, no_cash[2 := \<lparr>cash = 90, dice = 0\<rparr>], [50]) \<and>
   casino.dice tie_casino ! 1 = casino.dice tie_casino ! 0 \<and>
   no_cash[2 := \<lparr>cash = 90, dice = 0\<rparr>] ! 0 = no_cash ! 0 \<and>
   bills (tie_casino\<lparr>bills := [50, 0, 0, 0]\<rparr>) = drop (length (winners (casino.dice tie_casino))) (bills tie_casino)"
proof -
  have res: "resolve_casino tie_casino no_cash [] =
     (tie_casino\<lparr>bills := [50, 0, 0, 0]\<rparr>, no_cash[2 := \<lparr>cash = 90, dice = 0\<rparr>], [50])"
    by code_simp
  have d: "casino.dice tie_casino = [3, 3, 1, 0, 0]" by (simp add: tie_casino_def)
  have t: "\<exists>i'<length (casino.dice tie_casino). i' \<noteq> 0 \<and> casino.dice tie_casino ! i' = casino.dice tie_casino ! 0"
    by (auto simp: d intro!: exI [of _ 1])
  have z: "0 < length (casino.dice tie_casino)" by (simp add: d)
  from tied_counts_unpaid [OF res]
  have "\<forall>i<length (casino.dice tie_casino).
          (\<exists>i'<length (casino.dice tie_casino). i' \<noteq> i \<and> casino.dice tie_casino ! i' = casino.dice tie_casino ! i)
          \<longrightarrow> no_cash[2 := \<lparr>cash = 90, dice = 0\<rparr>] ! i = no_cash ! i"
    by blast
  with z t have "no_cash[2 := \<lparr>cash = 90, dice = 0\<rparr>] ! 0 = no_cash ! 0"
    by blast
  moreover from tied_counts_unpaid [OF res]
  have "bills (tie_casino\<lparr>bills := [50, 0, 0, 0]\<rparr>) = drop (length (winners (casino.dice tie_casino))) (bills tie_casino)"
    by blast
  ultimately show ?thesis using res by (simp add: d)
qed

section \<open>The invariant of the games in play\<close>

lemma sum_list_map_update:
  "a < length xs \<Longrightarrow> sum_list (map f (xs[a := y])) = sum_list (map f xs) - f (xs ! a) + (f y :: int)"
  by (induction xs arbitrary: a) (auto split: nat.splits)

lemma roll_dice_props:
  "length (roll_dice r g p) = 6"
  "a < 6 \<Longrightarrow> 0 \<le> roll_dice r g p ! a"
  "a < 6 \<Longrightarrow> 0 \<le> player.dice (players g ! nat p) \<Longrightarrow> roll_dice r g p ! a \<le> player.dice (players g ! nat p)"
proof -
  show "length (roll_dice r g p) = 6" by (simp add: roll_dice_def)
  show "0 \<le> roll_dice r g p ! a" if "a < 6" using that by (simp add: roll_dice_def)
  show "roll_dice r g p ! a \<le> player.dice (players g ! nat p)"
    if "a < 6" "0 \<le> player.dice (players g ! nat p)"
  proof -
    let ?roll = "map r [0..<nat (player.dice (players g ! nat p))]"
    have "count_list ?roll (int a + 1) \<le> length ?roll" by (rule count_le_length)
    then have "int (count_list ?roll (int a + 1)) \<le> player.dice (players g ! nat p)"
      using that(2) by simp
    then show ?thesis using that(1) by (simp add: roll_dice_def)
  qed
qed

lemma play_move_sound:
  assumes s: "sound g" and pm: "play_move g player action rc = (None, g')"
    and le: "rc ! nat action \<le> player.dice (players g ! nat player)"
  shows "sound g'"
proof -
  let ?p = "nat player" and ?a = "nat action" and ?n = "rc ! nat action"
  let ?pl = "players g ! ?p" and ?c = "casinos g ! ?a"
  let ?pl' = "?pl\<lparr>player.dice := player.dice ?pl - ?n\<rparr>"
  let ?c' = "?c\<lparr>casino.dice := (casino.dice ?c)[?p := casino.dice ?c ! ?p + ?n]\<rparr>"
  from pm have ok: "0 \<le> player" "player < num_players g" "0 \<le> action" "action < 6" "0 < ?n"
    by (auto simp: play_move_def split: if_splits)
  with pm have g': "g' = g\<lparr>players := (players g)[?p := ?pl'], casinos := (casinos g)[?a := ?c']\<rparr>"
    by (auto simp: play_move_def Let_def split: if_splits)
  from s have wf: "wf_game g" by (simp add: sound_def)
  then have lens: "length (players g) = 5" "length (casinos g) = 6"
    and dl: "\<forall>c\<in>set (casinos g). length (casino.dice c) = 5"
    and np: "2 \<le> num_players g" "num_players g \<le> 5"
    by (auto simp: wf_game_def MAX_PLAYERS_def list_all_iff)
  from ok lens np have p: "?p < length (players g)" and a: "?a < length (casinos g)" by auto
  from a have cin: "?c \<in> set (casinos g)" by simp
  with dl have cl: "length (casino.dice ?c) = 5" by blast
  from p have plin: "?pl \<in> set (players g)" by simp
  have wf': "wf_game g'"
    using wf cl a by (auto simp: g' wf_game_def MAX_PLAYERS_def list_all_iff dest!: set_update_subset_insert [THEN subsetD])
  have pl: "\<forall>q\<in>set (players g'). 0 \<le> cash q \<and> 0 \<le> player.dice q"
  proof
    fix q assume "q \<in> set (players g')"
    then have "q = ?pl' \<or> q \<in> set (players g)"
      using set_update_subset_insert [of "players g" ?p ?pl'] by (auto simp: g')
    then show "0 \<le> cash q \<and> 0 \<le> player.dice q"
      using s plin le by (auto simp: sound_def)
  qed
  have cs: "\<forall>c\<in>set (casinos g'). (\<forall>d\<in>set (casino.dice c). 0 \<le> d) \<and>
        (\<forall>b\<in>set (bills c). b = 0 \<or> 10 \<le> b \<and> b \<le> 90)"
  proof
    fix c assume "c \<in> set (casinos g')"
    then have c: "c = ?c' \<or> c \<in> set (casinos g)"
      using set_update_subset_insert [of "casinos g" ?a ?c'] by (auto simp: g')
    have old: "\<forall>d\<in>set (casino.dice ?c). 0 \<le> d" "\<forall>b\<in>set (bills ?c). b = 0 \<or> 10 \<le> b \<and> b \<le> 90"
      using s cin by (auto simp: sound_def)
    have "0 \<le> casino.dice ?c ! ?p" using old(1) cl p lens by simp
    then have "\<forall>d\<in>set (casino.dice ?c'). 0 \<le> d"
      using old(1) ok(5) set_update_subset_insert [of "casino.dice ?c" ?p "casino.dice ?c ! ?p + ?n"]
      by auto
    with old(2) have "(\<forall>d\<in>set (casino.dice ?c'). 0 \<le> d) \<and>
        (\<forall>b\<in>set (bills ?c'). b = 0 \<or> 10 \<le> b \<and> b \<le> 90)" by simp
    with c s show "(\<forall>d\<in>set (casino.dice c). 0 \<le> d) \<and>
        (\<forall>b\<in>set (bills c). b = 0 \<or> 10 \<le> b \<and> b \<le> 90)"
      by (auto simp: sound_def)
  qed
  have sm: "\<forall>i<length (players g').
        player.dice (players g' ! i) + placed g' i = (if int i < num_players g' then NUM_DICE else 0)"
  proof (intro allI impI)
    fix i assume "i < length (players g')"
    then have i: "i < length (players g)" by (simp add: g')
    have pl': "placed g' i = placed g i - casino.dice ?c ! i + casino.dice ?c' ! i"
      using a by (simp add: placed_def g' sum_list_map_update)
    from s i have old: "player.dice (players g ! i) + placed g i = (if int i < num_players g then NUM_DICE else 0)"
      by (simp add: sound_def)
    have d': "player.dice (players g' ! i) = (if i = ?p then player.dice ?pl - ?n else player.dice (players g ! i))"
      using i by (simp add: g' nth_list_update)
    have cd: "casino.dice ?c' ! i = (if i = ?p then casino.dice ?c ! ?p + ?n else casino.dice ?c ! i)"
      using cl p lens by (simp add: nth_list_update)
    have np': "num_players g' = num_players g" by (simp add: g')
    show "player.dice (players g' ! i) + placed g' i = (if int i < num_players g' then NUM_DICE else 0)"
      unfolding d' np' pl' cd using old by auto
  qed
  have rest: "round_no g' = round_no g" "first_player g' = first_player g"
    "num_players g' = num_players g" "deck g' = deck g"
    by (simp_all add: g')
  show ?thesis
    unfolding sound_def rest using wf' pl cs sm s by (simp add: sound_def rest)
qed

lemma pay_loop_nonneg:
  assumes "\<forall>b\<in>set bs. 0 \<le> b" and "\<forall>p\<in>set ps. 0 \<le> cash p"
  shows "\<forall>p\<in>set (fst (pay_loop xs cnt ps bs)). 0 \<le> cash p"
  using assms
proof (induction xs cnt ps bs rule: pay_loop.induct)
  case (1 counts ps bs)
  then show ?case by simp
next
  case (2 p k rest counts ps bs)
  show ?case
  proof (cases "counts k = 1 \<and> bs \<noteq> []")
    case False
    with 2 show ?thesis by auto
  next
    case True
    let ?ps = "ps[p := (ps ! p)\<lparr>cash := cash (ps ! p) + hd bs\<rparr>]"
    from True "2.prems"(1) have hd: "0 \<le> hd bs" by (cases bs) auto
    have tl: "\<forall>b\<in>set (tl bs). 0 \<le> b" using "2.prems"(1) by (cases bs) auto
    have "\<forall>q\<in>set ?ps. 0 \<le> cash q"
    proof (cases "p < length ps")
      case True
      then have "0 \<le> cash (ps ! p)" using "2.prems"(2) by simp
      with hd "2.prems"(2) show ?thesis
        using set_update_subset_insert [of ps p "(ps ! p)\<lparr>cash := cash (ps ! p) + hd bs\<rparr>"]
        by auto
    next
      case False
      then show ?thesis using "2.prems"(2) by (simp add: list_update_beyond)
    qed
    with "2.IH"(1) [OF True tl] True show ?thesis by simp
  qed
qed

lemma resolve_casinos_nonneg:
  assumes "resolve_casinos cs ps dk = (cs', ps', dk')"
    and "\<forall>c\<in>set cs. \<forall>b\<in>set (bills c). 0 \<le> b" and "\<forall>p\<in>set ps. 0 \<le> cash p"
  shows "\<forall>p\<in>set ps'. 0 \<le> cash p"
  using assms
proof (induction cs arbitrary: ps dk cs' ps' dk')
  case Nil
  then show ?case by simp
next
  case (Cons c cs)
  obtain c1 ps1 dk1 where r1: "resolve_casino c ps dk = (c1, ps1, dk1)"
    by (cases "resolve_casino c ps dk") auto
  obtain rest ps2 dk2 where r2: "resolve_casinos cs ps1 dk1 = (rest, ps2, dk2)"
    by (cases "resolve_casinos cs ps1 dk1") auto
  from Cons.prems(1) r1 r2 have eq: "ps' = ps2" by auto
  from r1 have "ps1 = fst (pay_loop (rev (ranked_of (casino.dice c))) (Counter (casino.dice c)) ps (bills c))"
    by (auto simp: resolve_casino_eq Let_def)
  then have "\<forall>p\<in>set ps1. 0 \<le> cash p"
    using pay_loop_nonneg [of "bills c" ps] Cons.prems(2,3) by simp
  with Cons.IH [OF r2] Cons.prems(2) show ?case by (simp add: eq)
qed

lemma resolve_casinos_nth:
  assumes "resolve_casinos cs ps dk = (cs', ps', dk')"
  shows "length cs' = length cs \<and>
         (\<forall>i<length cs. casino.dice (cs' ! i) = casino.dice (cs ! i) \<and>
            (\<exists>k. bills (cs' ! i) = drop k (bills (cs ! i))))"
proof -
  note fr = resolve_casinos_frame [OF assms]
  from fr have l: "length cs' = length cs" by (auto dest: list_all2_lengthD)
  have "casino.dice (cs' ! i) = casino.dice (cs ! i) \<and> (\<exists>k. bills (cs' ! i) = drop k (bills (cs ! i)))"
    if "i < length cs" for i
  proof -
    from fr have "map casino.dice cs' ! i = map casino.dice cs ! i" by simp
    with that l have "casino.dice (cs' ! i) = casino.dice (cs ! i)" by simp
    moreover from fr that have "\<exists>k. bills (cs' ! i) = drop k (bills (cs ! i))"
      by (auto simp: list_all2_conv_all_nth)
    ultimately show ?thesis by blast
  qed
  with l show ?thesis by blast
qed

lemma resolve_casinos_set:
  assumes "resolve_casinos cs ps dk = (cs', ps', dk')" and "c' \<in> set cs'"
  shows "\<exists>c\<in>set cs. casino.dice c' = casino.dice c \<and> set (bills c') \<subseteq> set (bills c)"
proof -
  note n = resolve_casinos_nth [OF assms(1)]
  from assms(2) obtain i where i: "i < length cs'" "c' = cs' ! i" by (auto simp: in_set_conv_nth)
  with n obtain k where "casino.dice c' = casino.dice (cs ! i)" "bills c' = drop k (bills (cs ! i))"
    by auto
  moreover have "set (drop k (bills (cs ! i))) \<subseteq> set (bills (cs ! i))" by (rule set_drop_subset)
  moreover from i n have "cs ! i \<in> set cs" by simp
  ultimately show ?thesis by auto
qed

lemma deal_bills_Inr:
  assumes "deal_bills dk = Inr (cs, dk')" and "\<forall>b\<in>set dk. 10 \<le> b \<and> b \<le> 90"
  shows "length cs = 6"
    and "\<forall>c\<in>set cs. casino.dice c = [0, 0, 0, 0, 0] \<and> length (bills c) = 5 \<and>
           (\<forall>b\<in>set (bills c). b = 0 \<or> 10 \<le> b \<and> b \<le> 90)"
    and "\<forall>b\<in>set dk'. 10 \<le> b \<and> b \<le> 90"
    and "mset dk = mset dk' + mset (concat (map (\<lambda>c. filter (\<lambda>b. b \<noteq> 0) (bills c)) cs))"
proof -
  from assms(1) obtain bss where l: "deal_loop 6 dk = Inr (bss, dk')"
    and cs: "cs = map (\<lambda>bs. \<lparr>bills = bs, dice = replicate (nat MAX_PLAYERS) 0\<rparr>) bss"
    by (auto simp: deal_bills_def split: sum.splits)
  from assms(2) have ge: "\<forall>b\<in>set dk. 10 \<le> b" by blast
  note dl = deal_loop_Inr [OF l ge]
  show "length cs = 6" using dl by (simp add: cs)
  show "\<forall>c\<in>set cs. casino.dice c = [0, 0, 0, 0, 0] \<and> length (bills c) = 5 \<and>
           (\<forall>b\<in>set (bills c). b = 0 \<or> 10 \<le> b \<and> b \<le> 90)"
  proof
    fix c assume "c \<in> set cs"
    then obtain bs where bs: "bs \<in> set bss" "c = \<lparr>bills = bs, dice = replicate (nat MAX_PLAYERS) 0\<rparr>"
      by (auto simp: cs)
    with dl have "length bs = 5" "set bs \<subseteq> insert 0 (set dk)" by blast+
    with assms(2) bs(2) show "casino.dice c = [0, 0, 0, 0, 0] \<and> length (bills c) = 5 \<and>
           (\<forall>b\<in>set (bills c). b = 0 \<or> 10 \<le> b \<and> b \<le> 90)"
      by (auto simp: MAX_PLAYERS_def eval_nat_numeral)
  qed
  have m: "map (\<lambda>c. filter (\<lambda>b. b \<noteq> 0) (bills c)) cs = map (filter (\<lambda>b. b \<noteq> 0)) bss"
    by (simp add: cs comp_def)
  with dl show e: "mset dk = mset dk' + mset (concat (map (\<lambda>c. filter (\<lambda>b. b \<noteq> 0) (bills c)) cs))"
    by simp
  have "set_mset (mset dk') \<subseteq> set_mset (mset dk)" unfolding e by simp
  then have "set dk' \<subseteq> set dk" by simp
  with assms(2) show "\<forall>b\<in>set dk'. 10 \<le> b \<and> b \<le> 90" by blast
qed

lemma fold_update_upt_length:
  "length (fold (\<lambda>i qs. qs[i := f (qs ! i)]) [0..<k] ps) = length ps"
  by (induction k) auto

lemma fold_update_upt:
  "\<forall>i<length ps.
     fold (\<lambda>i qs. qs[i := f (qs ! i)]) [0..<k] ps ! i = (if i < k then f (ps ! i) else ps ! i)"
proof (induction k)
  case 0
  show ?case by simp
next
  case (Suc k)
  let ?F = "fold (\<lambda>i qs. qs[i := f (qs ! i)]) [0..<k] ps"
  show ?case
  proof (intro allI impI)
    fix i assume i: "i < length ps"
    have "fold (\<lambda>i qs. qs[i := f (qs ! i)]) [0..<Suc k] ps ! i = ?F[k := f (?F ! k)] ! i"
      by simp
    also have "\<dots> = (if i < Suc k then f (ps ! i) else ps ! i)"
    proof (cases "i = k")
      case True
      with i Suc show ?thesis by (simp add: fold_update_upt_length)
    next
      case False
      with i Suc show ?thesis by auto
    qed
    finally show "fold (\<lambda>i qs. qs[i := f (qs ! i)]) [0..<Suc k] ps ! i =
        (if i < Suc k then f (ps ! i) else ps ! i)" .
  qed
qed

lemma reset_dice_nth:
  "i < length ps \<Longrightarrow>
   reset_dice n ps ! i = (if i < nat n then (ps ! i)\<lparr>player.dice := NUM_DICE\<rparr> else ps ! i)"
  unfolding reset_dice_def using fold_update_upt [of ps "\<lambda>q. q\<lparr>player.dice := NUM_DICE\<rparr>" "nat n"] by simp

lemma reset_dice_length: "length (reset_dice n ps) = length ps"
  unfolding reset_dice_def by (rule fold_update_upt_length)

lemma placed_eq:
  "placed g i = sum_list (map (\<lambda>d. d ! i) (map casino.dice (casinos g)))"
  by (simp add: placed_def comp_def)

lemma sound_placed_nonneg:
  assumes "sound g" and "i < 5"
  shows "0 \<le> placed g i"
proof -
  have "0 \<le> casino.dice c ! i" if "c \<in> set (casinos g)" for c
  proof -
    from assms(1) that have "length (casino.dice c) = 5" "\<forall>d\<in>set (casino.dice c). 0 \<le> d"
      by (auto simp: sound_def wf_game_def MAX_PLAYERS_def list_all_iff)
    with assms(2) show ?thesis by simp
  qed
  then show ?thesis unfolding placed_def by (intro sum_list_nonneg) auto
qed

lemma resolved_sound:
  assumes s: "sound g" and r: "resolve_casinos (casinos g) (players g) (deck g) = (cs, ps, dk)"
  shows "length ps = 5" and "length cs = 6"
    and "\<forall>p\<in>set ps. 0 \<le> cash p \<and> 0 \<le> player.dice p"
    and "\<forall>c\<in>set cs. length (casino.dice c) = 5 \<and> (\<forall>d\<in>set (casino.dice c). 0 \<le> d) \<and>
           (\<forall>b\<in>set (bills c). b = 0 \<or> 10 \<le> b \<and> b \<le> 90)"
    and "\<forall>b\<in>set dk. 10 \<le> b \<and> b \<le> 90"
    and "\<forall>i<5. player.dice (ps ! i) = player.dice (players g ! i)"
    and "map casino.dice cs = map casino.dice (casinos g)"
proof -
  note fr = resolve_casinos_frame [OF r]
  from s have wf: "length (players g) = 5" "length (casinos g) = 6"
    "\<forall>c\<in>set (casinos g). length (casino.dice c) = 5"
    by (auto simp: sound_def wf_game_def MAX_PLAYERS_def list_all_iff)
  show l: "length ps = 5" using fr wf by simp
  show "length cs = 6" using resolve_casinos_nth [OF r] wf by simp
  show md: "map casino.dice cs = map casino.dice (casinos g)" using fr by simp
  show dd: "\<forall>i<5. player.dice (ps ! i) = player.dice (players g ! i)"
  proof (intro allI impI)
    fix i :: nat assume i: "i < 5"
    from fr have "map player.dice ps ! i = map player.dice (players g) ! i" by simp
    with i l wf show "player.dice (ps ! i) = player.dice (players g ! i)" by simp
  qed
  have bn: "\<forall>c\<in>set (casinos g). \<forall>b\<in>set (bills c). 0 \<le> b"
    using s by (fastforce simp: sound_def)
  have pn: "\<forall>p\<in>set (players g). 0 \<le> cash p" using s by (simp add: sound_def)
  note nn = resolve_casinos_nonneg [OF r bn pn]
  show "\<forall>p\<in>set ps. 0 \<le> cash p \<and> 0 \<le> player.dice p"
  proof
    fix p assume p: "p \<in> set ps"
    then have "player.dice p \<in> set (map player.dice ps)" by simp
    then have "player.dice p \<in> set (map player.dice (players g))" using fr by simp
    then have "0 \<le> player.dice p" using s by (auto simp: sound_def)
    with nn p show "0 \<le> cash p \<and> 0 \<le> player.dice p" by simp
  qed
  show cc: "\<forall>c\<in>set cs. length (casino.dice c) = 5 \<and> (\<forall>d\<in>set (casino.dice c). 0 \<le> d) \<and>
           (\<forall>b\<in>set (bills c). b = 0 \<or> 10 \<le> b \<and> b \<le> 90)"
  proof
    fix c' assume "c' \<in> set cs"
    from resolve_casinos_set [OF r this] obtain c where c: "c \<in> set (casinos g)"
      "casino.dice c' = casino.dice c" "set (bills c') \<subseteq> set (bills c)" by blast
    from s c(1) have "(\<forall>d\<in>set (casino.dice c). 0 \<le> d) \<and>
        (\<forall>b\<in>set (bills c). b = 0 \<or> 10 \<le> b \<and> b \<le> 90)" by (simp add: sound_def)
    with c wf show "length (casino.dice c') = 5 \<and> (\<forall>d\<in>set (casino.dice c'). 0 \<le> d) \<and>
           (\<forall>b\<in>set (bills c'). b = 0 \<or> 10 \<le> b \<and> b \<le> 90)" by auto
  qed
  show "\<forall>b\<in>set dk. 10 \<le> b \<and> b \<le> 90"
  proof
    fix b assume "b \<in> set dk"
    with fr have "b \<in> set (deck g) \<or> (\<exists>c\<in>set cs. b \<in> set (bills c) \<and> b \<noteq> 0)" by auto
    then show "10 \<le> b \<and> b \<le> 90"
    proof
      assume "b \<in> set (deck g)" with s show ?thesis by (simp add: sound_def)
    next
      assume "\<exists>c\<in>set cs. b \<in> set (bills c) \<and> b \<noteq> 0"
      with cc show ?thesis by blast
    qed
  qed
qed

lemma shuffle_set: "is_shuffle sh \<Longrightarrow> set (sh xs) = set xs"
  unfolding is_shuffle_def by (metis set_mset_mset)

lemma dealt_placed:
  assumes "\<forall>c\<in>set cs. casino.dice c = [0, 0, 0, 0, 0]" and "i < 5"
  shows "sum_list (map (\<lambda>c. casino.dice c ! i) cs) = 0"
proof -
  have "[0, 0, 0, 0, 0 :: int] ! i = 0" using assms(2)
    by (simp add: nth_Cons' )
  with assms(1) have "\<forall>c\<in>set cs. casino.dice c ! i = 0" by simp
  then show ?thesis by (induction cs) auto
qed

lemma advance_round_sound:
  assumes s: "sound g" and adv: "advance_round sh g = (None, g')" and sh: "is_shuffle sh"
  shows "sound g'"
proof -
  obtain cs ps dk where r: "resolve_casinos (casinos g) (players g) (deck g) = (cs, ps, dk)"
    by (cases "resolve_casinos (casinos g) (players g) (deck g)") auto
  note rs = resolved_sound [OF s r]
  from s have np: "2 \<le> num_players g" "num_players g \<le> 5"
    and rd: "1 \<le> round_no g" "round_no g \<le> 4"
    and fp: "0 \<le> first_player g" "first_player g < num_players g"
    and old: "\<forall>i<5. player.dice (players g ! i) + placed g i = (if int i < num_players g then NUM_DICE else 0)"
    by (auto simp: sound_def wf_game_def MAX_PLAYERS_def NUM_ROUNDS_def)
  from adv have er: "is_end_round g" by (auto simp: advance_round_def split: if_splits)
  show ?thesis
  proof (cases "round_no g < NUM_ROUNDS")
    case False
    with adv er r have g': "g' = g\<lparr>players := ps, deck := dk, casinos := cs\<rparr>"
      by (simp add: advance_round_def)
    have pl: "placed g' i = placed g i" for i
      unfolding placed_eq using rs(7) by (simp add: g')
    have f: "num_players g' = num_players g" "round_no g' = round_no g"
      "first_player g' = first_player g" "players g' = ps" "casinos g' = cs" "deck g' = dk"
      by (simp_all add: g')
    have "wf_game g'"
      unfolding wf_game_def f using np rs(1,2,4) by (simp add: MAX_PLAYERS_def list_all_iff)
    moreover have "\<forall>i<length ps. player.dice (ps ! i) + placed g' i
        = (if int i < num_players g then NUM_DICE else 0)"
      unfolding pl using rs(1,6) old by simp
    ultimately show ?thesis
      unfolding sound_def f using rd fp rs(3,4,5) by (simp add: NUM_ROUNDS_def)
  next
    case True
    with adv er r obtain cs2 dk2 where d: "deal_bills (sh dk) = Inr (cs2, dk2)"
      and g': "g' = g\<lparr>players := reset_dice (num_players g) ps, deck := dk2, casinos := cs2,
                        first_player := (first_player g + 1) mod num_players g,
                        round_no := round_no g + 1\<rparr>"
      by (auto simp: advance_round_def split: sum.splits)
    have "\<forall>b\<in>set (sh dk). 10 \<le> b \<and> b \<le> 90" using rs(5) shuffle_set [OF sh] by simp
    note db = deal_bills_Inr [OF d this]
    let ?ps = "reset_dice (num_players g) ps"
    have f: "num_players g' = num_players g" "round_no g' = round_no g + 1"
      "first_player g' = (first_player g + 1) mod num_players g"
      "players g' = ?ps" "casinos g' = cs2" "deck g' = dk2"
      by (simp_all add: g')
    have lp: "length ?ps = 5" using rs(1) by (simp add: reset_dice_length)
    have nth: "?ps ! i = (if int i < num_players g then (ps ! i)\<lparr>player.dice := NUM_DICE\<rparr> else ps ! i)"
      if "i < 5" for i
      using that rs(1) np by (simp add: reset_dice_nth)
    have "wf_game g'"
      unfolding wf_game_def f using np lp db(1,2) by (simp add: MAX_PLAYERS_def list_all_iff)
    moreover have "\<forall>p\<in>set ?ps. 0 \<le> cash p \<and> 0 \<le> player.dice p"
    proof
      fix q assume "q \<in> set ?ps"
      then obtain i where i: "i < 5" "q = ?ps ! i" using lp by (auto simp: in_set_conv_nth)
      from i(1) rs(1) have "ps ! i \<in> set ps" by simp
      with rs(3) have "0 \<le> cash (ps ! i) \<and> 0 \<le> player.dice (ps ! i)" by blast
      then show "0 \<le> cash q \<and> 0 \<le> player.dice q"
        using i nth [OF i(1)] by (simp add: NUM_DICE_def)
    qed
    moreover have "\<forall>c\<in>set cs2. (\<forall>d\<in>set (casino.dice c). 0 \<le> d) \<and>
        (\<forall>b\<in>set (bills c). b = 0 \<or> 10 \<le> b \<and> b \<le> 90)"
      using db(2) by simp
    moreover have "\<forall>i<length ?ps. player.dice (?ps ! i) + placed g' i
        = (if int i < num_players g then NUM_DICE else 0)"
    proof (intro allI impI)
      fix i assume "i < length ?ps"
      then have i: "i < 5" using lp by simp
      have z: "placed g' i = 0"
        unfolding placed_def f using db(2) i by (intro dealt_placed) auto
      show "player.dice (?ps ! i) + placed g' i = (if int i < num_players g then NUM_DICE else 0)"
      proof (cases "int i < num_players g")
        case True
        then show ?thesis using nth [OF i] z by simp
      next
        case False
        from old i False have "player.dice (players g ! i) + placed g i = 0" by simp
        moreover have "0 \<le> placed g i" using s i by (rule sound_placed_nonneg)
        moreover have "0 \<le> player.dice (players g ! i)"
          using s i by (auto simp: sound_def wf_game_def MAX_PLAYERS_def)
        ultimately have "player.dice (players g ! i) = 0" by simp
        with rs(6) i have "player.dice (ps ! i) = 0" by simp
        with False show ?thesis using nth [OF i] z by simp
      qed
    qed
    moreover have "0 \<le> (first_player g + 1) mod num_players g"
      "(first_player g + 1) mod num_players g < num_players g"
      using np by simp_all
    ultimately show ?thesis
      unfolding sound_def f using rd True db(3) by (simp add: NUM_ROUNDS_def)
  qed
qed

lemma init_sound:
  assumes "LasVegas_init sh n = Inr g" and sh: "is_shuffle sh"
  shows "sound g"
proof -
  let ?ps = "map (\<lambda>i. if int i < n then \<lparr>cash = 0, dice = NUM_DICE\<rparr>
                            else \<lparr>cash = 0, dice = 0\<rparr>) [0..<nat MAX_PLAYERS]"
  from assms(1) have n: "2 \<le> n" "n \<le> 5"
    by (auto simp: LasVegas_init_def MAX_PLAYERS_def split: if_splits)
  with assms(1) obtain cs dk where d: "deal_bills (sh full_deck) = Inr (cs, dk)"
    and g: "g = \<lparr>num_players = n, players = ?ps, deck = dk, casinos = cs,
                     first_player = 0, round_no = 1\<rparr>"
    by (auto simp: LasVegas_init_def MAX_PLAYERS_def Let_def split: sum.splits)
  have "\<forall>b\<in>set (sh full_deck). 10 \<le> b \<and> b \<le> 90"
    using full_deck_bills shuffle_set [OF sh] by simp
  note db = deal_bills_Inr [OF d this]
  have f: "num_players g = n" "round_no g = 1" "first_player g = 0"
    "players g = ?ps" "casinos g = cs" "deck g = dk"
    by (simp_all add: g)
  have "wf_game g"
    unfolding wf_game_def f using n db(1,2) by (simp add: MAX_PLAYERS_def list_all_iff)
  moreover have "\<forall>p\<in>set ?ps. 0 \<le> cash p \<and> 0 \<le> player.dice p"
    by (auto simp: NUM_DICE_def)
  moreover have "\<forall>c\<in>set cs. (\<forall>d\<in>set (casino.dice c). 0 \<le> d) \<and>
        (\<forall>b\<in>set (bills c). b = 0 \<or> 10 \<le> b \<and> b \<le> 90)"
    using db(2) by simp
  moreover have "\<forall>i<length ?ps. player.dice (?ps ! i) + placed g i
        = (if int i < n then NUM_DICE else 0)"
  proof (intro allI impI)
    fix i assume "i < length ?ps"
    then have i: "i < 5" by (simp add: MAX_PLAYERS_def)
    have z: "placed g i = 0"
      unfolding placed_def f using db(2) i by (intro dealt_placed) auto
    from i have "?ps ! i = (if int i < n then \<lparr>cash = 0, dice = NUM_DICE\<rparr> else \<lparr>cash = 0, dice = 0\<rparr>)"
      by (simp add: MAX_PLAYERS_def)
    then show "player.dice (?ps ! i) + placed g i = (if int i < n then NUM_DICE else 0)"
      using z by simp
  qed
  ultimately show ?thesis
    unfolding sound_def f using n db(3) by (simp add: NUM_ROUNDS_def)
qed

lemma reachable_sound: "reachable g h \<Longrightarrow> sound g"
proof (induction rule: reachable.induct)
  case (start shuffle n g)
  then show ?case using init_sound by blast
next
  case (move g h randint player action g')
  from move.hyps(3) have ok: "0 \<le> player" "player < num_players g" "0 \<le> action" "action < 6"
    by (auto simp: play_move_def split: if_splits)
  with move.IH have "nat player < length (players g)"
    by (auto simp: sound_def wf_game_def MAX_PLAYERS_def)
  with move.IH have "0 \<le> player.dice (players g ! nat player)"
    by (auto simp: sound_def)
  moreover from ok have "nat action < 6" by auto
  ultimately have "roll_dice randint g player ! nat action \<le> player.dice (players g ! nat player)"
    by (intro roll_dice_props(3))
  with move.IH move.hyps(3) show ?case by (rule play_move_sound)
next
  case (next_round g h shuffle g')
  then show ?case using advance_round_sound by blast
qed

lemma run_reachable:
  assumes "reachable g h" and "list_all op_ok ops" and "run (g, h) ops = Some (g', h')"
  shows "reachable g' h'"
  using assms
proof (induction ops arbitrary: g h)
  case Nil
  then show ?case by simp
next
  case (Cons x ops)
  from Cons.prems(3) obtain g1 h1 where st: "step (g, h) x = Some (g1, h1)"
    and rn: "run (g1, h1) ops = Some (g', h')"
    by (auto split: option.splits)
  have "reachable g1 h1"
  proof (cases x)
    case (Move randint player action)
    with st have "play_move g player action (roll_dice randint g player) = (None, g1)" "h1 = h"
      by (auto split: prod.splits option.splits)
    moreover from Cons.prems(2) Move have "is_randint randint" by simp
    ultimately show ?thesis using Cons.prems(1) by (auto intro: reachable.move)
  next
    case (Advance shuffle)
    with st have "advance_round shuffle g = (None, g1)" "h1 = h @ paid_bills g"
      by (auto split: prod.splits option.splits)
    moreover from Cons.prems(2) Advance have "is_shuffle shuffle" by simp
    ultimately show ?thesis using Cons.prems(1) by (auto intro: reachable.next_round)
  qed
  with Cons.IH rn Cons.prems(2) show ?case by simp
qed

lemma ops_ok:
  "is_randint (\<lambda>k. 1)" "is_randint (\<lambda>k. 2)" "is_shuffle (\<lambda>xs. xs)" "is_shuffle rev"
  by (simp_all add: is_randint_def is_shuffle_def)

lemma reachable_example_game: "reachable example_game []"
  using ops_ok(3) example_game_init by (rule reachable.start)

lemma reachable_round4_game: "reachable round4_game [90, 90, 80, 90, 80, 80]"
proof -
  let ?ops = "two_player_round @ two_player_round @ two_player_round
                @ [Move (\<lambda>k. 1) 0 0, Move (\<lambda>k. 2) 1 1]"
  have "list_all op_ok ?ops" by (simp add: two_player_round_def ops_ok)
  moreover have "run (example_game, []) ?ops = Some (round4_game, [90, 90, 80, 90, 80, 80])"
    by code_simp
  ultimately show ?thesis using reachable_example_game run_reachable by blast
qed

text \<open>
  C10, amended. In every state of a game in which each move plays the counts of a roll of
  the player's remaining dice (so the count played is at most the dice the player has
  left), every player slot has between 0 and \<open>NUM_DICE\<close> dice.
\<close>

theorem dice_in_range:
  assumes "reachable g h"
  shows "list_all (\<lambda>p. 0 \<le> player.dice p \<and> player.dice p \<le> NUM_DICE) (players g)"
proof -
  from assms have s: "sound g" by (rule reachable_sound)
  then have l: "length (players g) = 5" by (auto simp: sound_def wf_game_def MAX_PLAYERS_def)
  have "0 \<le> player.dice (players g ! i) \<and> player.dice (players g ! i) \<le> NUM_DICE"
    if "i < length (players g)" for i
  proof -
    from that l have i: "i < 5" by simp
    from s that have "0 \<le> player.dice (players g ! i)" by (auto simp: sound_def)
    moreover from s that have "player.dice (players g ! i) + placed g i
        = (if int i < num_players g then NUM_DICE else 0)" by (simp add: sound_def)
    moreover have "0 \<le> placed g i" using s i by (rule sound_placed_nonneg)
    ultimately show ?thesis by (auto simp: NUM_DICE_def split: if_splits)
  qed
  then show ?thesis by (simp add: list_all_length)
qed

theorem dice_in_range_witness:
  "reachable round4_game [90, 90, 80, 90, 80, 80] \<and>
   list_all (\<lambda>p. 0 \<le> player.dice p \<and> player.dice p \<le> NUM_DICE) (players round4_game)"
  using dice_in_range [OF reachable_round4_game] reachable_round4_game by simp

text \<open>
  C10, as stated, fails. The three assertions of \<^verbatim>\<open>play_move\<close> hold for player 0, casino 0
  and roll counts 9, 0, 0, 0, 0, 0 in a new two-player game: the move is accepted and
  leaves player 0 with \<open>-1\<close> dice.
\<close>

theorem dice_below_zero_counterexample:
  "LasVegas_init (\<lambda>xs. xs) 2 = Inr example_game \<and>
   fst (play_move example_game 0 0 [9, 0, 0, 0, 0, 0]) = None \<and>
   player.dice (players (snd (play_move example_game 0 0 [9, 0, 0, 0, 0, 0])) ! 0) = - 1"
proof -
  have "fst (play_move example_game 0 0 [9, 0, 0, 0, 0, 0]) = None" by code_simp
  moreover have "player.dice (players (snd (play_move example_game 0 0 [9, 0, 0, 0, 0, 0])) ! 0) = - 1"
    by code_simp
  ultimately show ?thesis using example_game_init by simp
qed

section \<open>The cash paid out\<close>

text \<open>
  What \<open>paid_bills\<close> lists is what the players get: \<^verbatim>\<open>advance_round\<close> raises the
  players' cash by the sum of these bills in all.
\<close>

lemma pay_loop_cash:
  assumes "\<forall>x\<in>set xs. fst x < length ps"
  shows "sum_list (map cash (fst (pay_loop xs cnt ps bs)))
           = sum_list (map cash ps)
             + sum_list (take (length bs - length (snd (pay_loop xs cnt ps bs))) bs)"
  using assms
proof (induction xs cnt ps bs rule: pay_loop.induct)
  case (1 counts ps bs)
  show ?case by simp
next
  case (2 p k rest counts ps bs)
  show ?case
  proof (cases "counts k = 1 \<and> bs \<noteq> []")
    case False
    with 2 show ?thesis by auto
  next
    case True
    then obtain b bs' where bs: "bs = b # bs'" by (cases bs) auto
    let ?ps = "ps[p := (ps ! p)\<lparr>cash := cash (ps ! p) + hd bs\<rparr>]"
    let ?r = "pay_loop rest counts ?ps (tl bs)"
    from "2.prems" have p: "p < length ps" and rest: "\<forall>x\<in>set rest. fst x < length ?ps" by auto
    from "2.IH"(1) [OF True rest]
    have ih: "sum_list (map cash (fst ?r))
        = sum_list (map cash ?ps) + sum_list (take (length (tl bs) - length (snd ?r)) (tl bs))" .
    have s1: "sum_list (map cash ?ps) = sum_list (map cash ps) + b"
      using p by (simp add: sum_list_map_update bs)
    obtain j where "snd ?r = drop j (tl bs)" using pay_loop_bills by blast
    then have "length (snd ?r) \<le> length bs'" by (simp add: bs)
    then have "length bs - length (snd ?r) = Suc (length bs' - length (snd ?r))"
      by (simp add: bs)
    then have s2: "sum_list (take (length bs - length (snd ?r)) bs)
        = b + sum_list (take (length (tl bs) - length (snd ?r)) (tl bs))"
      by (simp add: bs)
    from True have "pay_loop ((p, k) # rest) counts ps bs = ?r" by simp
    then show ?thesis using ih s1 s2 by simp
  qed
qed

lemma resolve_casinos_cash:
  assumes "resolve_casinos cs ps dk = (cs', ps', dk')"
    and "\<forall>c\<in>set cs. length (casino.dice c) \<le> length ps"
  shows "sum_list (map cash ps') = sum_list (map cash ps)
           + sum_list (concat (map2 (\<lambda>c c'. take (length (bills c) - length (bills c')) (bills c)) cs cs'))"
  using assms
proof (induction cs arbitrary: ps dk cs' ps' dk')
  case Nil
  then show ?case by simp
next
  case (Cons c cs)
  obtain c1 ps1 dk1 where r1: "resolve_casino c ps dk = (c1, ps1, dk1)"
    by (cases "resolve_casino c ps dk") auto
  obtain rest ps2 dk2 where r2: "resolve_casinos cs ps1 dk1 = (rest, ps2, dk2)"
    by (cases "resolve_casinos cs ps1 dk1") auto
  from Cons.prems(1) r1 r2 have eqs: "cs' = c1 # rest" "ps' = ps2" by auto
  let ?r = "pay_loop (rev (ranked_of (casino.dice c))) (Counter (casino.dice c)) ps (bills c)"
  from r1 have c1: "bills c1 = snd ?r" "ps1 = fst ?r"
    by (auto simp: resolve_casino_eq Let_def)
  have "\<forall>x\<in>set (rev (ranked_of (casino.dice c))). fst x < length ps"
    using Cons.prems(2) by (auto simp: set_ranked_of)
  from pay_loop_cash [OF this]
  have s1: "sum_list (map cash ps1) = sum_list (map cash ps)
      + sum_list (take (length (bills c) - length (bills c1)) (bills c))"
    by (simp add: c1)
  have "length ps1 = length ps" by (simp add: c1 pay_loop_length)
  with Cons.prems(2) have "\<forall>c\<in>set cs. length (casino.dice c) \<le> length ps1" by simp
  from Cons.IH [OF r2 this] s1 show ?case by (simp add: eqs)
qed

lemma reset_dice_cash:
  "map cash (reset_dice n ps) = map cash ps"
proof (rule nth_equalityI)
  show "length (map cash (reset_dice n ps)) = length (map cash ps)"
    by (simp add: reset_dice_length)
next
  fix i assume "i < length (map cash (reset_dice n ps))"
  then have i: "i < length ps" by (simp add: reset_dice_length)
  then show "map cash (reset_dice n ps) ! i = map cash ps ! i"
    by (simp add: reset_dice_length reset_dice_nth)
qed

lemma advance_round_cash:
  assumes s: "sound g" and adv: "advance_round sh g = (None, g')"
  shows "sum_list (map cash (players g'))
           = sum_list (map cash (players g)) + sum_list (paid_bills g)"
proof -
  obtain cs ps dk where r: "resolve_casinos (casinos g) (players g) (deck g) = (cs, ps, dk)"
    by (cases "resolve_casinos (casinos g) (players g) (deck g)") auto
  from s have "\<forall>c\<in>set (casinos g). length (casino.dice c) \<le> length (players g)"
    by (auto simp: sound_def wf_game_def list_all_iff)
  from resolve_casinos_cash [OF r this]
  have c: "sum_list (map cash ps) = sum_list (map cash (players g)) + sum_list (paid_bills g)"
    by (simp add: paid_bills_def r)
  from adv r have "map cash (players g') = map cash ps"
    by (auto simp: advance_round_def reset_dice_cash split: if_splits sum.splits)
  with c show ?thesis by simp
qed

section \<open>The bills in circulation\<close>

lemma in_play_reachable: "in_play g h \<Longrightarrow> reachable g h"
  by (induction rule: in_play.induct) (auto intro: reachable.intros)

lemma play_move_bills:
  assumes "play_move g player action rc = (None, g')" and "nat action < length (casinos g)"
  shows "map bills (casinos g') = map bills (casinos g)" and "deck g' = deck g"
proof -
  let ?a = "nat action" and ?p = "nat player"
  let ?c = "casinos g ! ?a"
  from assms(1) have g': "g' = g\<lparr>players := (players g)[?p := (players g ! ?p)\<lparr>player.dice := player.dice (players g ! ?p) - rc ! ?a\<rparr>],
       casinos := (casinos g)[?a := ?c\<lparr>casino.dice := (casino.dice ?c)[?p := casino.dice ?c ! ?p + rc ! ?a]\<rparr>]\<rparr>"
    by (auto simp: play_move_def Let_def split: if_splits)
  show "deck g' = deck g" by (simp add: g')
  have "map bills (casinos g') = (map bills (casinos g))[?a := bills ?c]"
    by (simp add: g' map_update)
  also have "\<dots> = map bills (casinos g)"
    using assms(2) by (simp add: list_update_same_conv)
  finally show "map bills (casinos g') = map bills (casinos g)" .
qed

lemma bills_in_casinos_eq:
  "bills_in_casinos g = concat (map (filter (\<lambda>b. b \<noteq> 0)) (map bills (casinos g)))"
  by (simp add: bills_in_casinos_def comp_def)

lemma paid_split:
  assumes "length cs' = length cs"
    and "\<forall>i<length cs. \<exists>k. bills (cs' ! i) = drop k (bills (cs ! i))"
  shows "mset (concat (map (\<lambda>c. filter (\<lambda>b. b \<noteq> 0) (bills c)) cs)) =
         mset (filter (\<lambda>b. b \<noteq> 0)
           (concat (map2 (\<lambda>c c'. take (length (bills c) - length (bills c')) (bills c)) cs cs')))
         + mset (concat (map (\<lambda>c. filter (\<lambda>b. b \<noteq> 0) (bills c)) cs'))"
  using assms
proof (induction cs arbitrary: cs')
  case Nil
  then show ?case by simp
next
  case (Cons c cs)
  from Cons.prems(1) obtain c' rest where cs': "cs' = c' # rest" by (cases cs') auto
  from Cons.prems(2) have "\<exists>k. bills ((c' # rest) ! 0) = drop k (bills ((c # cs) ! 0))"
    unfolding cs' by blast
  then obtain k where k: "bills c' = drop k (bills c)" by auto
  have sp: "bills c = take (length (bills c) - length (bills c')) (bills c) @ bills c'"
  proof (cases "k \<le> length (bills c)")
    case True
    then have "length (bills c) - length (bills c') = k" by (simp add: k)
    then show ?thesis by (simp add: k)
  next
    case False
    then show ?thesis by (simp add: k)
  qed
  have "\<forall>i<length cs. \<exists>k. bills (rest ! i) = drop k (bills (cs ! i))"
  proof (intro allI impI)
    fix i assume "i < length cs"
    then have "Suc i < length (c # cs)" by simp
    with Cons.prems(2) have "\<exists>k. bills (cs' ! Suc i) = drop k (bills ((c # cs) ! Suc i))" by blast
    then show "\<exists>k. bills (rest ! i) = drop k (bills (cs ! i))" by (simp add: cs')
  qed
  moreover from Cons.prems(1) have "length rest = length cs" by (simp add: cs')
  ultimately have ih: "mset (concat (map (\<lambda>c. filter (\<lambda>b. b \<noteq> 0) (bills c)) cs)) =
         mset (filter (\<lambda>b. b \<noteq> 0)
           (concat (map2 (\<lambda>c c'. take (length (bills c) - length (bills c')) (bills c)) cs rest)))
         + mset (concat (map (\<lambda>c. filter (\<lambda>b. b \<noteq> 0) (bills c)) rest))"
    using Cons.IH by blast
  have "mset (filter (\<lambda>b. b \<noteq> 0) (bills c)) =
        mset (filter (\<lambda>b. b \<noteq> 0) (take (length (bills c) - length (bills c')) (bills c)))
        + mset (filter (\<lambda>b. b \<noteq> 0) (bills c'))"
    by (subst sp) (simp only: filter_append mset_append)
  with ih show ?case by (simp add: cs')
qed

lemma init_conserved:
  assumes "LasVegas_init sh n = Inr g" and sh: "is_shuffle sh"
  shows "mset (deck g) + mset (bills_in_casinos g) = mset full_deck"
proof -
  from assms(1) obtain cs dk where d: "deal_bills (sh full_deck) = Inr (cs, dk)"
    and g: "deck g = dk" "casinos g = cs"
    by (auto simp: LasVegas_init_def Let_def split: if_splits sum.splits)
  have "\<forall>b\<in>set (sh full_deck). 10 \<le> b \<and> b \<le> 90"
    using full_deck_bills shuffle_set [OF sh] by simp
  from deal_bills_Inr(4) [OF d this] sh show ?thesis
    by (simp add: g bills_in_casinos_def is_shuffle_def)
qed

lemma advance_round_conserved:
  assumes s: "sound g" and adv: "advance_round sh g = (None, g')" and sh: "is_shuffle sh"
    and rd: "round_no g < NUM_ROUNDS"
  shows "mset (deck g') + mset (bills_in_casinos g') + mset (filter (\<lambda>b. b \<noteq> 0) (paid_bills g))
         = mset (deck g) + mset (bills_in_casinos g)"
proof -
  obtain cs ps dk where r: "resolve_casinos (casinos g) (players g) (deck g) = (cs, ps, dk)"
    by (cases "resolve_casinos (casinos g) (players g) (deck g)") auto
  note rs = resolved_sound [OF s r]
  note fr = resolve_casinos_frame [OF r]
  note nth = resolve_casinos_nth [OF r]
  from adv have er: "is_end_round g" by (auto simp: advance_round_def split: if_splits)
  with adv r rd obtain cs2 dk2 where d: "deal_bills (sh dk) = Inr (cs2, dk2)"
    and g': "deck g' = dk2" "casinos g' = cs2"
    by (auto simp: advance_round_def split: sum.splits)
  have "\<forall>b\<in>set (sh dk). 10 \<le> b \<and> b \<le> 90" using rs(5) shuffle_set [OF sh] by simp
  from deal_bills_Inr(4) [OF d this] sh
  have a: "mset dk = mset dk2 + mset (concat (map (\<lambda>c. filter (\<lambda>b. b \<noteq> 0) (bills c)) cs2))"
    by (simp add: is_shuffle_def)
  from fr have b: "mset dk = mset (deck g) + mset (concat (map (\<lambda>c. filter (\<lambda>b. b \<noteq> 0) (bills c)) cs))"
    by simp
  have p: "paid_bills g =
      concat (map2 (\<lambda>c c'. take (length (bills c) - length (bills c')) (bills c)) (casinos g) cs)"
    by (simp add: paid_bills_def r)
  from nth have c: "mset (concat (map (\<lambda>c. filter (\<lambda>b. b \<noteq> 0) (bills c)) (casinos g))) =
         mset (filter (\<lambda>b. b \<noteq> 0) (paid_bills g))
         + mset (concat (map (\<lambda>c. filter (\<lambda>b. b \<noteq> 0) (bills c)) cs))"
    unfolding p by (intro paid_split) auto
  show ?thesis
    unfolding g' bills_in_casinos_def c using a b by simp
qed

lemma in_play_conserved:
  assumes "in_play g h"
  shows "mset (deck g) + mset (bills_in_casinos g) + mset (filter (\<lambda>b. b \<noteq> 0) h) = mset full_deck"
  using assms
proof (induction rule: in_play.induct)
  case (start shuffle n g)
  then show ?case using init_conserved by simp
next
  case (move g h randint player action g')
  from move.hyps(1) have "sound g" by (intro reachable_sound in_play_reachable)
  then have "length (casinos g) = 6" by (simp add: sound_def wf_game_def)
  moreover from move.hyps(3) have "0 \<le> action" "action < 6"
    by (auto simp: play_move_def split: if_splits)
  ultimately have "nat action < length (casinos g)" by auto
  from play_move_bills [OF move.hyps(3) this] move.IH show ?case
    by (simp add: bills_in_casinos_eq)
next
  case (next_round g h shuffle g')
  from next_round.hyps(1) have "sound g" by (intro reachable_sound in_play_reachable)
  note step = advance_round_conserved [OF this next_round.hyps(4,3,2)]
  have "mset (deck g') + mset (bills_in_casinos g') + mset (filter (\<lambda>b. b \<noteq> 0) (h @ paid_bills g))
      = (mset (deck g') + mset (bills_in_casinos g') + mset (filter (\<lambda>b. b \<noteq> 0) (paid_bills g)))
        + mset (filter (\<lambda>b. b \<noteq> 0) h)"
    by (simp only: filter_append mset_append ac_simps)
  also have "\<dots> = mset (deck g) + mset (bills_in_casinos g) + mset (filter (\<lambda>b. b \<noteq> 0) h)"
    by (simp only: step)
  also have "\<dots> = mset full_deck" by (rule next_round.IH)
  finally show ?case .
qed

text \<open>
  C6, amended. In every state of a game up to the moment the final round is resolved,
  the bills in the deck, the non-empty bills in the six casinos and the non-empty bills
  paid out so far are 54 together, and the deck holds no empty slot.
\<close>

theorem bills_conserved:
  assumes "in_play g h"
  shows "bill_total g h = 54 \<and> 0 \<notin> set (deck g)"
proof -
  have "bill_total g h
      = size (mset (deck g) + mset (bills_in_casinos g) + mset (filter (\<lambda>b. b \<noteq> 0) h))"
    by (simp add: bill_total_def del: mset_filter)
  also have "\<dots> = size (mset full_deck)" by (simp only: in_play_conserved [OF assms])
  finally have "bill_total g h = 54" by (simp add: length_full_deck)
  moreover from assms have "sound g" by (intro reachable_sound in_play_reachable)
  then have "0 \<notin> set (deck g)" by (auto simp: sound_def)
  ultimately show ?thesis by simp
qed

lemma advance_round_next:
  assumes "advance_round sh g = (None, g')" and "round_no g < NUM_ROUNDS"
  shows "round_no g' = round_no g + 1"
  using assms
  by (auto simp: advance_round_def split: if_splits prod.splits sum.splits)

lemma play_move_round:
  assumes "play_move g player action rc = (None, g')"
  shows "round_no g' = round_no g"
  using assms by (auto simp: play_move_def Let_def split: if_splits)

lemma run_in_play:
  assumes "in_play g h" and "list_all op_ok ops" and "run (g, h) ops = Some (g', h')"
    and "round_no g + int (length (filter (\<lambda>x. \<exists>sh. x = Advance sh) ops)) \<le> NUM_ROUNDS"
  shows "in_play g' h'"
  using assms
proof (induction ops arbitrary: g h)
  case Nil
  then show ?case by simp
next
  case (Cons x ops)
  from Cons.prems(3) obtain g1 h1 where st: "step (g, h) x = Some (g1, h1)"
    and rn: "run (g1, h1) ops = Some (g', h')"
    by (auto split: option.splits)
  have "in_play g1 h1 \<and>
        round_no g1 + int (length (filter (\<lambda>x. \<exists>sh. x = Advance sh) ops)) \<le> NUM_ROUNDS"
  proof (cases x)
    case (Move randint player action)
    with st have pm: "play_move g player action (roll_dice randint g player) = (None, g1)" "h1 = h"
      by (auto split: prod.splits option.splits)
    moreover from Cons.prems(2) Move have "is_randint randint" by simp
    ultimately have "in_play g1 h1" using Cons.prems(1) by (auto intro: in_play.move)
    moreover have "round_no g1 = round_no g" using pm(1) by (rule play_move_round)
    ultimately show ?thesis using Cons.prems(4) Move by simp
  next
    case (Advance shuffle)
    with st have ad: "advance_round shuffle g = (None, g1)" "h1 = h @ paid_bills g"
      by (auto split: prod.splits option.splits)
    from Cons.prems(4) Advance have lt: "round_no g < NUM_ROUNDS" by simp
    moreover from Cons.prems(2) Advance have "is_shuffle shuffle" by simp
    ultimately have "in_play g1 h1" using Cons.prems(1) ad by (auto intro: in_play.next_round)
    moreover have "round_no g1 = round_no g + 1" using ad(1) lt by (rule advance_round_next)
    ultimately show ?thesis using Cons.prems(4) Advance by simp
  qed
  moreover from Cons.prems(2) have "list_all op_ok ops" by simp
  ultimately show ?case using Cons.IH rn by blast
qed

lemma in_play_round4_game: "in_play round4_game [90, 90, 80, 90, 80, 80]"
proof -
  let ?ops = "two_player_round @ two_player_round @ two_player_round
                @ [Move (\<lambda>k. 1) 0 0, Move (\<lambda>k. 2) 1 1]"
  have "in_play example_game []"
    using ops_ok(3) example_game_init by (rule in_play.start)
  moreover have "list_all op_ok ?ops" by (simp add: two_player_round_def ops_ok)
  moreover have "run (example_game, []) ?ops = Some (round4_game, [90, 90, 80, 90, 80, 80])"
    by code_simp
  moreover have "round_no example_game
      + int (length (filter (\<lambda>x. \<exists>sh. x = Advance sh) ?ops)) \<le> NUM_ROUNDS"
    by (simp add: two_player_round_def example_game_def NUM_ROUNDS_def)
  ultimately show ?thesis by (rule run_in_play)
qed

theorem bills_conserved_witness:
  "in_play round4_game [90, 90, 80, 90, 80, 80] \<and>
   bill_total round4_game [90, 90, 80, 90, 80, 80] = 54 \<and>
   length (deck round4_game) = 42 \<and> length (bills_in_casinos round4_game) = 6"
proof -
  have "length (deck round4_game) = 42" "length (bills_in_casinos round4_game) = 6"
    by (simp_all add: round4_game_def bills_in_casinos_def)
  with bills_conserved [OF in_play_round4_game] in_play_round4_game show ?thesis by simp
qed

text \<open>
  C6, as stated, fails once the final round is resolved: the casinos are not dealt again,
  so the four bills that nobody won are still in the casinos' lists and have also been
  appended to the deck. 46 bills in the deck, 4 in the casinos and 8 paid out are 58.
\<close>

theorem bills_final_counterexample:
  "reachable final_game [90, 90, 80, 90, 80, 80, 80, 80] \<and>
   bill_total final_game [90, 90, 80, 90, 80, 80, 80, 80] = 58"
proof -
  have "run (round4_game, [90, 90, 80, 90, 80, 80]) [Advance (\<lambda>xs. xs)]
          = Some (final_game, [90, 90, 80, 90, 80, 80, 80, 80])"
    by code_simp
  moreover have "list_all op_ok [Advance (\<lambda>xs. xs)]" by (simp add: ops_ok)
  ultimately have "reachable final_game [90, 90, 80, 90, 80, 80, 80, 80]"
    using reachable_round4_game run_reachable by blast
  moreover have "bill_total final_game [90, 90, 80, 90, 80, 80, 80, 80] = 58"
    by (simp add: bill_total_def bills_in_casinos_def final_game_def)
  ultimately show ?thesis by simp
qed

section \<open>The ranges and the order of the state vector\<close>

lemma MAX_BILL_eq: "MAX_BILL = 90"
  by (simp add: MAX_BILL_def BILL_COUNTS_def)

lemma slice_shift:
  "slice_from xs p @ slice_to xs p = drop (slice_pos xs p) xs @ take (slice_pos xs p) xs"
  by (simp add: slice_from_def slice_to_def)

lemma slice_shift_length: "length (slice_from xs p @ slice_to xs p) = length xs"
  by (simp add: slice_shift)

lemma slice_lengths: "length (slice_from xs p) + length (slice_to xs p) = length xs"
  using slice_shift_length [of xs p] by simp

lemma slice_shift_set: "set (slice_from xs p @ slice_to xs p) = set xs"
proof -
  have "set (drop (slice_pos xs p) xs) \<union> set (take (slice_pos xs p) xs)
      = set (take (slice_pos xs p) xs @ drop (slice_pos xs p) xs)"
    by (simp only: set_append Un_commute)
  then show ?thesis by (simp only: slice_shift set_append append_take_drop_id)
qed

lemma casino_vec_eq:
  "casino_vec player c =
     map (\<lambda>d. real_of_int d / 8) (slice_from (casino.dice c) player @ slice_to (casino.dice c) player)
     @ map (\<lambda>b. real_of_int b / 90) (slice_from (bills c) player @ slice_to (bills c) player)"
  by (simp add: casino_vec_def Let_def NUM_DICE_def MAX_BILL_eq)

lemma get_game_state_eq:
  "get_game_state g player rc =
     ([real_of_int (num_players g) / 5, real_of_int (round_no g) / 4,
       real_of_int (if player \<ge> first_player g then player - first_player g
                    else num_players g - first_player g + player) / real_of_int (num_players g)]
      @ map (\<lambda>c. real_of_int c / 100)
          (slice_from (map cash (players g)) player @ slice_to (map cash (players g)) player))
     @ (concat (map (casino_vec player) (casinos g))
        @ map (\<lambda>r. real_of_int r / 8) rc)"
  by (simp add: get_game_state_def Let_def MAX_PLAYERS_def NUM_ROUNDS_def CASH_NORM_def NUM_DICE_def)

lemma concat_block:
  assumes "\<forall>b\<in>set bss. length b = n" and "i < length bss"
  shows "take n (drop (n * i) (concat bss @ rest)) = bss ! i"
  using assms
proof (induction bss arbitrary: i)
  case Nil
  then show ?case by simp
next
  case (Cons b bss)
  show ?case
  proof (cases i)
    case 0
    with Cons.prems show ?thesis by simp
  next
    case (Suc j)
    with Cons.prems have "take n (drop (n * j) (concat bss @ rest)) = bss ! j"
      by (intro Cons.IH) auto
    moreover have "drop (n * Suc j) (concat (b # bss) @ rest) = drop (n * j) (concat bss @ rest)"
      using Cons.prems(1) by simp
    ultimately show ?thesis using Suc by simp
  qed
qed

lemma casino_block:
  assumes "wf_game g" and "list_all (\<lambda>c. length (bills c) = 5) (casinos g)" and "i < 6"
  shows "take 10 (drop (8 + 10 * i) (get_game_state g player rc)) = casino_vec player (casinos g ! i)"
proof -
  from assms(1) have l: "length (players g) = 5" "length (casinos g) = 6"
    and dl: "\<forall>c\<in>set (casinos g). length (casino.dice c) = 5"
    by (auto simp: wf_game_def MAX_PLAYERS_def list_all_iff)
  from assms(2) have bl: "\<forall>c\<in>set (casinos g). length (bills c) = 5" by (simp add: list_all_iff)
  let ?C = "map (casino_vec player) (casinos g)"
  let ?D = "map (\<lambda>r. real_of_int r / 8) rc"
  have blocks: "\<forall>b\<in>set ?C. length b = 10"
  proof
    fix b assume "b \<in> set ?C"
    then obtain c where c: "c \<in> set (casinos g)" "b = casino_vec player c" by auto
    with dl bl have len: "length (casino.dice c) = 5" "length (bills c) = 5" by auto
    define X where "X = map (\<lambda>d. real_of_int d / 8)
        (slice_from (casino.dice c) player @ slice_to (casino.dice c) player)"
    define Y where "Y = map (\<lambda>b. real_of_int b / 90)
        (slice_from (bills c) player @ slice_to (bills c) player)"
    have "length X = 5" "length Y = 5"
      unfolding X_def Y_def by (simp_all only: length_map slice_shift_length len)
    then have "length (X @ Y) = 10" by simp
    then show "length b = 10" unfolding c(2) casino_vec_eq X_def Y_def .
  qed
  define P where "P = [real_of_int (num_players g) / 5, real_of_int (round_no g) / 4,
       real_of_int (if player \<ge> first_player g then player - first_player g
                    else num_players g - first_player g + player) / real_of_int (num_players g)]
      @ map (\<lambda>c. real_of_int c / 100)
          (slice_from (map cash (players g)) player @ slice_to (map cash (players g)) player)"
  have "length P = 8" unfolding P_def using l by (simp add: slice_lengths)
  then have "drop (8 + 10 * i) (P @ ys) = drop (10 * i) ys" for ys by simp
  then have "drop (8 + 10 * i) (get_game_state g player rc) = drop (10 * i) (concat ?C @ ?D)"
    unfolding get_game_state_eq P_def .
  moreover have "take 10 (drop (10 * i) (concat ?C @ ?D)) = ?C ! i"
    using blocks assms(3) l by (intro concat_block) auto
  ultimately show ?thesis using assms(3) l by simp
qed

text \<open>
  C5, amended. In a game whose casinos have five bill slots each, positions
  \<open>13 + 10 i\<close> to \<open>17 + 10 i\<close> of the vector are the bill slots of casino \<open>i\<close>, each
  divided by 90, in the order \<^verbatim>\<open>bills[player:] + bills[:player]\<close>: for an active observer
  the stored order rotated left by the observer's index, like the per-player entries.
\<close>

theorem bills_rotated:
  assumes "wf_game g" and "list_all (\<lambda>c. length (bills c) = 5) (casinos g)" and "i < 6"
  shows "take 5 (drop (13 + 10 * i) (get_game_state g player rc))
           = map (\<lambda>b. real_of_int b / 90)
               (slice_from (bills (casinos g ! i)) player @ slice_to (bills (casinos g ! i)) player) \<and>
         (0 \<le> player \<and> player < num_players g \<longrightarrow>
            slice_from (bills (casinos g ! i)) player @ slice_to (bills (casinos g ! i)) player
              = rotate (nat player) (bills (casinos g ! i)))"
proof
  let ?v = "get_game_state g player rc" and ?c = "casinos g ! i"
  from assms have c: "?c \<in> set (casinos g)" by (simp add: wf_game_def)
  with assms have len: "length (casino.dice ?c) = 5" "length (bills ?c) = 5"
    by (auto simp: wf_game_def MAX_PLAYERS_def list_all_iff)
  have "take 5 (drop (13 + 10 * i) ?v) = take 5 (drop 5 (drop (8 + 10 * i) ?v))"
    by (simp add: add.commute)
  also have "\<dots> = drop 5 (take 10 (drop (8 + 10 * i) ?v))"
    by (simp add: drop_take)
  also have "\<dots> = drop 5 (casino_vec player ?c)"
    by (simp only: casino_block [OF assms])
  also have "\<dots> = map (\<lambda>b. real_of_int b / 90)
               (slice_from (bills ?c) player @ slice_to (bills ?c) player)"
  proof -
    define X where "X = map (\<lambda>d. real_of_int d / 8)
        (slice_from (casino.dice ?c) player @ slice_to (casino.dice ?c) player)"
    have "length X = 5" unfolding X_def by (simp only: length_map slice_shift_length len)
    then have "drop 5 (X @ ys) = ys" for ys by simp
    then show ?thesis unfolding casino_vec_eq X_def .
  qed
  finally show "take 5 (drop (13 + 10 * i) ?v) = map (\<lambda>b. real_of_int b / 90)
               (slice_from (bills ?c) player @ slice_to (bills ?c) player)" .
  show "0 \<le> player \<and> player < num_players g \<longrightarrow>
            slice_from (bills ?c) player @ slice_to (bills ?c) player = rotate (nat player) (bills ?c)"
  proof
    assume p: "0 \<le> player \<and> player < num_players g"
    with assms(1) have "nat player < 5" by (auto simp: wf_game_def MAX_PLAYERS_def)
    with p len show "slice_from (bills ?c) player @ slice_to (bills ?c) player = rotate (nat player) (bills ?c)"
      by (simp add: slice_shift slice_pos_def rotate_drop_take)
  qed
qed

theorem bills_rotated_witness:
  "wf_game example_game \<and> list_all (\<lambda>c. length (bills c) = 5) (casinos example_game) \<and>
   take 5 (drop (13 + 10 * 5) (get_game_state example_game 1 [0, 3, 0, 5, 0, 0]))
     = map (\<lambda>b. real_of_int b / 90) (rotate 1 [80, 0, 0, 0, 0])"
proof -
  have h: "wf_game example_game" "list_all (\<lambda>c. length (bills c) = 5) (casinos example_game)"
    "(5::nat) < 6"
    by (simp_all add: wf_example_game) (simp add: example_game_def)
  have v: "bills (casinos example_game ! 5) = [80, 0, 0, 0, 0]" "num_players example_game = 2"
    by (simp_all add: example_game_def)
  from bills_rotated [OF h, of 1 "[0, 3, 0, 5, 0, 0]"] h show ?thesis
    by (simp add: v slice_from_def slice_to_def slice_pos_def)
qed

text \<open>
  C5, as stated, fails. In a new two-player game casino 0 holds the bills 90, 0, 0, 0, 0:
  its bill slots read 1, 0, 0, 0, 0 in the vector of observer 0 and 0, 0, 0, 0, 1 in
  the vector of observer 1.
\<close>

theorem bills_rotated_counterexample:
  "take 5 (drop 13 (get_game_state example_game 0 [8, 0, 0, 0, 0, 0])) = [1, 0, 0, 0, 0] \<and>
   take 5 (drop 13 (get_game_state example_game 1 [8, 0, 0, 0, 0, 0])) = [0, 0, 0, 0, 1]"
  by (simp add: get_game_state_eq casino_vec_eq example_game_def slice_from_def slice_to_def slice_pos_def)

lemma member_le_sum_list:
  assumes "c \<in> set cs" and "\<forall>c\<in>set cs. 0 \<le> f c"
  shows "f c \<le> (sum_list (map f cs) :: int)"
  using assms
proof (induction cs)
  case Nil
  then show ?case by simp
next
  case (Cons x xs)
  have "0 \<le> sum_list (map f xs)" using Cons.prems(2) by (intro sum_list_nonneg) auto
  moreover have "0 \<le> f x" using Cons.prems(2) by simp
  ultimately show ?case using Cons by auto
qed

lemma sound_dice:
  assumes "sound g" and "i < 5"
  shows "0 \<le> player.dice (players g ! i)" and "player.dice (players g ! i) \<le> 8"
    and "placed g i \<le> 8"
proof -
  from assms have l: "i < length (players g)" by (auto simp: sound_def wf_game_def MAX_PLAYERS_def)
  with assms(1) show d: "0 \<le> player.dice (players g ! i)" by (auto simp: sound_def)
  from assms(1) l have e: "player.dice (players g ! i) + placed g i
        = (if int i < num_players g then NUM_DICE else 0)" by (simp add: sound_def)
  have p: "0 \<le> placed g i" using assms by (rule sound_placed_nonneg)
  from e p show "player.dice (players g ! i) \<le> 8" by (auto simp: NUM_DICE_def split: if_splits)
  from e d show "placed g i \<le> 8" by (auto simp: NUM_DICE_def split: if_splits)
qed

lemma sound_casino_dice:
  assumes "sound g" and "c \<in> set (casinos g)" and "d \<in> set (casino.dice c)"
  shows "0 \<le> d \<and> d \<le> 8"
proof -
  from assms(1,2) have len: "length (casino.dice c) = 5"
    by (auto simp: sound_def wf_game_def MAX_PLAYERS_def list_all_iff)
  from assms(3) obtain i where i: "i < length (casino.dice c)" "d = casino.dice c ! i"
    by (auto simp: in_set_conv_nth)
  with len have i5: "i < 5" by simp
  have nn: "\<forall>c\<in>set (casinos g). 0 \<le> casino.dice c ! i"
  proof
    fix c' assume "c' \<in> set (casinos g)"
    with assms(1) have "length (casino.dice c') = 5" "\<forall>d\<in>set (casino.dice c'). 0 \<le> d"
      by (auto simp: sound_def wf_game_def MAX_PLAYERS_def list_all_iff)
    with i5 show "0 \<le> casino.dice c' ! i" by simp
  qed
  from member_le_sum_list [OF assms(2) nn] have "d \<le> placed g i" by (simp add: placed_def i(2))
  moreover have "placed g i \<le> 8" using assms(1) i5 by (rule sound_dice(3))
  moreover have "0 \<le> d" using nn assms(2) i(2) by simp
  ultimately show ?thesis by simp
qed

lemma in_set_map_obtain: "x \<in> set (map f xs) \<Longrightarrow> \<exists>y\<in>set xs. x = f y"
  by auto

lemma casino_vec_range:
  assumes "sound g" and "c \<in> set (casinos g)" and "x \<in> set (casino_vec player c)"
  shows "0 \<le> x \<and> x \<le> 1"
proof -
  from assms(3) have "x \<in> set (map (\<lambda>d. real_of_int d / 8)
          (slice_from (casino.dice c) player @ slice_to (casino.dice c) player))
      \<or> x \<in> set (map (\<lambda>b. real_of_int b / 90)
          (slice_from (bills c) player @ slice_to (bills c) player))"
    unfolding casino_vec_eq by (simp only: set_append Un_iff)
  then consider
      d where "d \<in> set (slice_from (casino.dice c) player @ slice_to (casino.dice c) player)"
        "x = real_of_int d / 8"
    | b where "b \<in> set (slice_from (bills c) player @ slice_to (bills c) player)"
        "x = real_of_int b / 90"
    by (blast dest: in_set_map_obtain)
  then show ?thesis
  proof cases
    case 1
    then have "d \<in> set (casino.dice c)" by (simp only: slice_shift_set)
    with assms(1,2) have "0 \<le> d \<and> d \<le> 8" by (rule sound_casino_dice)
    with 1(2) show ?thesis by simp
  next
    case 2
    then have "b \<in> set (bills c)" by (simp only: slice_shift_set)
    with assms(1,2) have "b = 0 \<or> 10 \<le> b \<and> b \<le> 90" by (auto simp: sound_def)
    with 2(2) show ?thesis by auto
  qed
qed

text \<open>
  C4, amended. For a state of a game, an active observer and the counts of a roll of the
  observer's dice, no component of the vector is negative, and every component other
  than the five cash components (positions 3 to 7, each a player's cash divided by 100)
  is at most 1.
\<close>

theorem state_vector_range:
  assumes r: "reachable g h" and p: "0 \<le> player" "player < num_players g"
    and ri: "is_randint randint"
  shows "list_all (\<lambda>x. 0 \<le> x) (get_game_state g player (roll_dice randint g player)) \<and>
         list_all (\<lambda>x. x \<le> 1)
           (take 3 (get_game_state g player (roll_dice randint g player))
            @ drop 8 (get_game_state g player (roll_dice randint g player))) \<and>
         take 5 (drop 3 (get_game_state g player (roll_dice randint g player)))
           = map (\<lambda>c. real_of_int c / 100)
               (slice_from (map cash (players g)) player @ slice_to (map cash (players g)) player)"
proof -
  from r have s: "sound g" by (rule reachable_sound)
  then have l: "length (players g) = 5" and n: "2 \<le> num_players g" "num_players g \<le> 5"
    and fp: "0 \<le> first_player g" "first_player g < num_players g"
    and rd: "1 \<le> round_no g" "round_no g \<le> 4"
    by (auto simp: sound_def wf_game_def MAX_PLAYERS_def NUM_ROUNDS_def)
  let ?rc = "roll_dice randint g player"
  let ?order = "if player \<ge> first_player g then player - first_player g
                    else num_players g - first_player g + player"
  define A where "A = [real_of_int (num_players g) / 5, real_of_int (round_no g) / 4,
       real_of_int ?order / real_of_int (num_players g)]"
  define B where "B = map (\<lambda>c. real_of_int c / 100)
          (slice_from (map cash (players g)) player @ slice_to (map cash (players g)) player)"
  define C where "C = concat (map (casino_vec player) (casinos g)) @ map (\<lambda>r. real_of_int r / 8) ?rc"
  have v: "get_game_state g player ?rc = (A @ B) @ C"
    unfolding get_game_state_eq A_def B_def C_def ..
  have lA: "length A = 3" by (simp add: A_def)
  have lB: "length B = 5" unfolding B_def by (simp only: length_map slice_shift_length l)
  have o: "0 \<le> ?order" "?order \<le> num_players g" using p fp by auto
  have A: "\<forall>x\<in>set A. 0 \<le> x \<and> x \<le> 1"
    using n rd o by (auto simp: A_def divide_le_eq_1_pos)
  have B: "\<forall>x\<in>set B. 0 \<le> x"
  proof
    fix x assume "x \<in> set B"
    then obtain c where c: "c \<in> set (slice_from (map cash (players g)) player
          @ slice_to (map cash (players g)) player)" "x = real_of_int c / 100"
      unfolding B_def by (blast dest: in_set_map_obtain)
    from c(1) have "c \<in> set (map cash (players g))" by (simp only: slice_shift_set)
    with s have "0 \<le> c" by (auto simp: sound_def)
    with c(2) show "0 \<le> x" by simp
  qed
  have C: "\<forall>x\<in>set C. 0 \<le> x \<and> x \<le> 1"
  proof
    fix x assume "x \<in> set C"
    then have "x \<in> set (concat (map (casino_vec player) (casinos g)))
        \<or> x \<in> set (map (\<lambda>r. real_of_int r / 8) ?rc)"
      unfolding C_def by (simp only: set_append Un_iff)
    moreover have "\<exists>a<length ?rc. x = real_of_int (?rc ! a) / 8"
      if "x \<in> set (map (\<lambda>r. real_of_int r / 8) ?rc)"
    proof -
      from that obtain y where "y \<in> set ?rc" "x = real_of_int y / 8"
        by (blast dest: in_set_map_obtain)
      then show ?thesis by (auto simp only: in_set_conv_nth)
    qed
    moreover have "\<exists>c\<in>set (casinos g). x \<in> set (casino_vec player c)"
      if "x \<in> set (concat (map (casino_vec player) (casinos g)))"
      using that by auto
    ultimately consider c where "c \<in> set (casinos g)" "x \<in> set (casino_vec player c)"
      | a where "a < length ?rc" "x = real_of_int (?rc ! a) / 8"
      by blast
    then show "0 \<le> x \<and> x \<le> 1"
    proof cases
      case 1
      with s show ?thesis by (intro casino_vec_range)
    next
      case 2
      then have a: "a < 6" by (simp add: roll_dice_props(1))
      from p n have "nat player < 5" by auto
      with s have d: "0 \<le> player.dice (players g ! nat player)" "player.dice (players g ! nat player) \<le> 8"
        by (auto intro: sound_dice)
      from roll_dice_props(2) [OF a, of randint g player]
        roll_dice_props(3) [OF a d(1), of randint] d(2)
      have "0 \<le> ?rc ! a \<and> ?rc ! a \<le> 8" by linarith
      with 2(2) show ?thesis by simp
    qed
  qed
  have "list_all (\<lambda>x. 0 \<le> x) ((A @ B) @ C)" using A B C by (auto simp: list_all_iff)
  moreover have "take 3 ((A @ B) @ C) @ drop 8 ((A @ B) @ C) = A @ C" using lA lB by simp
  moreover have "list_all (\<lambda>x. x \<le> 1) (A @ C)" using A C by (auto simp: list_all_iff)
  moreover have "take 5 (drop 3 ((A @ B) @ C)) = B" using lA lB by simp
  ultimately show ?thesis unfolding v B_def by simp
qed

lemma reachable_rich_game: "reachable rich_game [90, 90, 90]"
proof -
  let ?ops = "[Move (\<lambda>k. if k < 4 then 1 else 2) 0 0, Move (\<lambda>k. 2) 0 1, Move (\<lambda>k. 3) 1 2,
               Advance (\<lambda>xs. xs)]"
  have "is_randint (\<lambda>k. if k < 4 then 1 else 2)" "is_randint (\<lambda>k. 3)"
    by (simp_all add: is_randint_def)
  then have "list_all op_ok ?ops" by (simp add: ops_ok)
  moreover have "run (example_game, []) ?ops = Some (rich_game, [90, 90, 90])"
    by code_simp
  ultimately show ?thesis using reachable_example_game run_reachable by blast
qed

theorem state_vector_range_witness:
  "reachable round4_game [90, 90, 80, 90, 80, 80] \<and> (0::int) \<le> 1 \<and>
   1 < num_players round4_game \<and> is_randint (\<lambda>k. 3) \<and>
   list_all (\<lambda>x. 0 \<le> x) (get_game_state round4_game 1 (roll_dice (\<lambda>k. 3) round4_game 1)) \<and>
   list_all (\<lambda>x. x \<le> 1)
     (take 3 (get_game_state round4_game 1 (roll_dice (\<lambda>k. 3) round4_game 1))
      @ drop 8 (get_game_state round4_game 1 (roll_dice (\<lambda>k. 3) round4_game 1)))"
proof -
  have h: "(0::int) \<le> 1" "1 < num_players round4_game" "is_randint (\<lambda>k. 3)"
    by (simp_all add: round4_game_def is_randint_def)
  from state_vector_range [OF reachable_round4_game h] reachable_round4_game h
  show ?thesis by blast
qed

text \<open>
  C4, as stated, fails. Player 0 has won two bills of 90 in the first round; the first
  cash component of the vector is 180 / 100.
\<close>

theorem cash_above_one_counterexample:
  "reachable rich_game [90, 90, 90] \<and> 0 < num_players rich_game \<and> is_randint (\<lambda>k. 1) \<and>
   get_game_state rich_game 0 (roll_dice (\<lambda>k. 1) rich_game 0) ! 3 = 9 / 5 \<and> (1::real) < 9 / 5"
proof -
  have "get_game_state rich_game 0 (roll_dice (\<lambda>k. 1) rich_game 0) ! 3 = 9 / 5"
    by (simp add: get_game_state_eq rich_game_def slice_from_def slice_to_def slice_pos_def)
  moreover have "0 < num_players rich_game" by (simp add: rich_game_def)
  ultimately show ?thesis using reachable_rich_game ops_ok(1) by simp
qed

section \<open>Inactive slots\<close>

lemma four_player_game_init: "LasVegas_init rev 4 = Inr four_player_game"
  by code_simp

lemma reachable_four_player_played: "reachable four_player_played []"
proof -
  have "reachable four_player_game []"
    using ops_ok(4) four_player_game_init by (rule reachable.start)
  moreover have "list_all op_ok four_player_moves"
    by (simp add: four_player_moves_def is_randint_def)
  moreover have "run (four_player_game, []) four_player_moves = Some (four_player_played, [])"
    by code_simp
  ultimately show ?thesis using run_reachable by blast
qed

lemma inactive_dice_zero:
  assumes "reachable g h" and "num_players g \<le> int i" and "i < 5"
  shows "player.dice (players g ! i) = 0"
proof -
  from assms(1) have s: "sound g" by (rule reachable_sound)
  with assms(3) have "i < length (players g)" by (auto simp: sound_def wf_game_def MAX_PLAYERS_def)
  with s assms(2) have "player.dice (players g ! i) + placed g i = 0" by (simp add: sound_def)
  moreover have "0 \<le> placed g i" using s assms(3) by (rule sound_placed_nonneg)
  moreover have "0 \<le> player.dice (players g ! i)" using s assms(3) by (rule sound_dice(1))
  ultimately show ?thesis by simp
qed

text \<open>
  C3. The dice of an inactive slot are 0 in every state of a game
  (\<open>inactive_dice_zero\<close>). Its cash does not stay 0: the payout loop ranks all five
  slots of a casino, the inactive ones with their count 0 among them. In the four-player
  game below the four players hold the counts 4, 3, 2 and 1 on casino 0, which has five
  bills of 10; the count 0 of slot 4 is held once, and \<^verbatim>\<open>advance_round\<close> pays the fifth
  bill to the inactive slot.
\<close>

theorem inactive_slot_paid:
  "reachable four_player_played [] \<and> num_players four_player_played = 4 \<and>
   is_end_round four_player_played \<and>
   cash (players four_player_played ! 4) = 0 \<and>
   fst (advance_round rev four_player_played) = None \<and>
   cash (players (snd (advance_round rev four_player_played)) ! 4) = 10 \<and>
   player.dice (players (snd (advance_round rev four_player_played)) ! 4) = 0"
proof -
  have "num_players four_player_played = 4" "cash (players four_player_played ! 4) = 0"
    by (simp_all add: four_player_played_def four_player_game_def)
  moreover have "is_end_round four_player_played" by code_simp
  moreover have "fst (advance_round rev four_player_played) = None" by code_simp
  moreover have "cash (players (snd (advance_round rev four_player_played)) ! 4) = 10" by code_simp
  moreover have "player.dice (players (snd (advance_round rev four_player_played)) ! 4) = 0"
    by code_simp
  ultimately show ?thesis using reachable_four_player_played by simp
qed

end
